theory Spec2Isabelle
  imports Main
begin

section \<open>Strings and regular expressions of the host language\<close>

text \<open>
  A TypeScript string is a sequence of UTF-16 code units.  It is modelled as a
  \<^typ>\<open>string\<close>, one \<^typ>\<open>char\<close> for each code unit; the documents of the model are
  the ones whose code units are below 256.  Offsets count code units, as
  \<^verbatim>\<open>match.index\<close>, \<^verbatim>\<open>lastIndex\<close> and \<^verbatim>\<open>substring\<close> do.
\<close>

text \<open>
  \<^verbatim>\<open>Canonicalize\<close> of ECMA-262 for a pattern with the \<^verbatim>\<open>i\<close> flag and without the
  \<^verbatim>\<open>u\<close> flag: the code unit is mapped to upper case.  A code unit from 128 on never
  canonicalizes to one below 128, and every character of the patterns of this program
  is below 128, so code units other than the ASCII letters are left as they are.
\<close>

definition canonicalize :: "char \<Rightarrow> char" where
  "canonicalize ch =
     (case map_of (zip ''abcdefghijklmnopqrstuvwxyz'' ''ABCDEFGHIJKLMNOPQRSTUVWXYZ'') ch of
        None \<Rightarrow> ch
      | Some u \<Rightarrow> u)"

text \<open>
  The fragment of the pattern language that the program's three patterns use:
  the empty pattern, a literal character, a negated one-character class \<^verbatim>\<open>[^c]\<close>, the end-of-input
  assertion \<^verbatim>\<open>$\<close> (no \<^verbatim>\<open>m\<close> flag), sequence, alternation \<^verbatim>\<open>|\<close>, the greedy
  \<^verbatim>\<open>*\<close>, and a numbered capturing group.  \<^verbatim>\<open>(?: )\<close> groups nothing and is the
  pattern inside it.
\<close>

datatype regex =
    Eps
  | Lit char
  | NotLit char
  | Eoi
  | Cat regex regex
  | Alt regex regex
  | Star regex
  | Grp nat regex

text \<open>\<^verbatim>\<open>a+\<close> is \<^verbatim>\<open>a{1,}\<close>: one \<^verbatim>\<open>a\<close>, then \<^verbatim>\<open>a*\<close>.\<close>

definition Plus :: "regex \<Rightarrow> regex" where
  "Plus a = Cat a (Star a)"

fun seq :: "regex list \<Rightarrow> regex" where
  "seq [a] = a"
| "seq (a # as) = Cat a (seq as)"
| "seq [] = Eps"

fun alts :: "regex list \<Rightarrow> regex" where
  "alts [a] = a"
| "alts (a # as) = Alt a (alts as)"
| "alts [] = Eps"

definition lits :: "string \<Rightarrow> regex" where
  "lits w = seq (map Lit w)"

text \<open>
  The state of a match: the part of the input that is not consumed yet, and the
  captures so far (\<^verbatim>\<open>undefined\<close> is \<open>None\<close>).  The end index of a state is the length
  of the input minus the length of what is left.
\<close>

type_synonym captures = "nat \<Rightarrow> string option"
type_synonym mstate = "string \<times> captures"

text \<open>
  The backtracking matcher of ECMA-262, as the list of the states it can end in, in
  the order in which backtracking tries them: the first alternative before the
  second, a longer repetition before a shorter one.  An iteration of \<^verbatim>\<open>*\<close> that
  consumes nothing is rejected, as \<^verbatim>\<open>RepeatMatcher\<close> does.  The match that
  \<^verbatim>\<open>exec\<close> reports is the head of the list.
\<close>

function ms :: "regex \<Rightarrow> mstate \<Rightarrow> mstate list" where
  "ms Eps st = [st]"
| "ms (Lit c) (s, cs) =
     (case s of
        [] \<Rightarrow> []
      | x # xs \<Rightarrow> if canonicalize x = canonicalize c then [(xs, cs)] else [])"
| "ms (NotLit c) (s, cs) =
     (case s of
        [] \<Rightarrow> []
      | x # xs \<Rightarrow> if canonicalize x = canonicalize c then [] else [(xs, cs)])"
| "ms Eoi (s, cs) = (if s = [] then [(s, cs)] else [])"
| "ms (Cat a b) st = concat (map (\<lambda>m. ms b m) (ms a st))"
| "ms (Alt a b) st = ms a st @ ms b st"
| "ms (Star a) st =
     concat (map (\<lambda>m. if length (fst m) < length (fst st) then ms (Star a) m else [])
                 (ms a st)) @ [st]"
| "ms (Grp n a) (s, cs) =
     map (\<lambda>(t, cs'). (t, cs'(n \<mapsto> take (length s - length t) s))) (ms a (s, cs))"
  by pat_completeness auto
termination
  by (relation "measures [\<lambda>(r, st). size r, \<lambda>(r, st). length (fst st)]") auto

lemmas ms_Star = ms.simps(7)

declare ms.simps(7) [simp del]

definition first_match :: "regex \<Rightarrow> string \<Rightarrow> mstate option" where
  "first_match r s = (case ms r (s, \<lambda>n. None) of [] \<Rightarrow> None | st # _ \<Rightarrow> Some st)"

text \<open>
  The array that \<^verbatim>\<open>exec\<close> returns: \<^verbatim>\<open>match.index\<close>, and \<^verbatim>\<open>match[n]\<close> for the
  groups.
\<close>

record RegExpExecArray =
  index :: nat
  groups :: captures

text \<open>
  \<^verbatim>\<open>RegExpBuiltinExec\<close> of ECMA-262: from \<^verbatim>\<open>lastIndex\<close> on, the first index where the
  pattern matches.  The result is the array (or \<open>None\<close> for \<^verbatim>\<open>null\<close>) and the new
  \<^verbatim>\<open>lastIndex\<close> of a pattern with the \<^verbatim>\<open>g\<close> flag: the end index of the match, or 0
  when there is none.
\<close>

function regExpBuiltinExec :: "regex \<Rightarrow> string \<Rightarrow> nat \<Rightarrow> RegExpExecArray option \<times> nat" where
  "regExpBuiltinExec R S lastIndex =
     (if length S < lastIndex then (None, 0)
      else case first_match R (drop lastIndex S) of
             None \<Rightarrow> regExpBuiltinExec R S (lastIndex + 1)
           | Some (rest, cap) \<Rightarrow>
               (Some \<lparr>index = lastIndex, groups = cap\<rparr>, length S - length rest))"
  by pat_completeness auto
termination
  by (relation "measure (\<lambda>(R, S, i). Suc (length S) - i)") auto

declare regExpBuiltinExec.simps [simp del]

section \<open>The data of the plugin\<close>

text \<open>\<^verbatim>\<open>AudioLink\<close> of main.ts: the path text and its positions in the note.\<close>

record AudioLink =
  filePath :: string
  startPos :: nat
  endPos :: nat

text \<open>
  \<^verbatim>\<open>TFile\<close> of the host: the program reads its \<^verbatim>\<open>path\<close> only.  A \<^verbatim>\<open>TFile\<close> is an
  object, so it is truthy.
\<close>

record TFile =
  path :: string

text \<open>\<^verbatim>\<open>AudioLinkFile\<close> of link\_finder.ts: the resolved file and the note positions.\<close>

record AudioLinkFile =
  tfile :: TFile
  startPos :: nat
  endPos :: nat

text \<open>\<^verbatim>\<open>LinkMatch\<close> of link\_finder.ts: a raw match in the text of the note.\<close>

record LinkMatch =
  linkText :: string
  startPos :: nat
  endPos :: nat

section \<open>link\_finder.ts: the scanner\<close>

definition audioExtensions :: "string list" where
  "audioExtensions = [''mp3'', ''wav'', ''m4a'', ''flac'', ''ogg'', ''aac'']"

text \<open>\<^verbatim>\<open>(?:mp3|wav|m4a|flac|ogg|aac)\<close>\<close>

definition extPattern :: regex where
  "extPattern = alts (map lits audioExtensions)"

text \<open>
  \<^verbatim>\<open>\[([^\]]*)\]\(([^)]+(?:mp3|wav|m4a|flac|ogg|aac))\)|\[\[([^\]]+(?:mp3|wav|m4a|flac|ogg|aac))\]\]\<close>
  with the flags \<^verbatim>\<open>gi\<close>.
\<close>

definition mdLink :: regex where
  "mdLink =
     seq [Lit CHR ''['', Grp 1 (Star (NotLit CHR '']'')), Lit CHR '']'', Lit CHR ''('',
          Grp 2 (Cat (Plus (NotLit CHR '')'')) extPattern), Lit CHR '')'']"

definition wikiLink :: regex where
  "wikiLink =
     seq [Lit CHR ''['', Lit CHR ''['',
          Grp 3 (Cat (Plus (NotLit CHR '']'')) extPattern), Lit CHR '']'', Lit CHR '']'']"

definition linkRegex :: regex where
  "linkRegex = Alt mdLink wikiLink"

text \<open>\<^verbatim>\<open>match[2] || match[3]\<close>: the empty string and \<^verbatim>\<open>undefined\<close> are falsy.\<close>

definition falsy :: "string option \<Rightarrow> bool" where
  "falsy v = (case v of None \<Rightarrow> True | Some s \<Rightarrow> s = [])"

definition or_else :: "string option \<Rightarrow> string option \<Rightarrow> string option" where
  "or_else a b = (if falsy a then b else a)"

text \<open>
  Every end state of a match is a suffix of the state it began in, and a pattern that
  begins with a literal consumes at least one character.  The loops over \<^verbatim>\<open>exec\<close>
  below end for that reason.
\<close>

lemma ms_suffix:
  "st' \<in> set (ms r st) \<Longrightarrow> \<exists>w. fst st = w @ fst st'"
proof (induction r st arbitrary: st' rule: ms.induct)
  case (1 st)
  then show ?case by simp
next
  case (2 c s cs)
  then show ?case by (auto split: list.splits if_splits)
next
  case (3 c s cs)
  then show ?case by (auto split: list.splits if_splits)
next
  case (4 s cs)
  then show ?case by (auto split: if_splits)
next
  case (5 a b st)
  from "5.prems" obtain m where m: "m \<in> set (ms a st)" and st': "st' \<in> set (ms b m)"
    by auto
  from "5.IH"(1)[OF m] obtain w1 where w1: "fst st = w1 @ fst m" by blast
  from "5.IH"(2)[OF m st'] obtain w2 where w2: "fst m = w2 @ fst st'" by blast
  from w1 w2 have "fst st = (w1 @ w2) @ fst st'" by simp
  then show ?case by blast
next
  case (6 a b st)
  from "6.prems" have "st' \<in> set (ms a st) \<or> st' \<in> set (ms b st)" by simp
  then show ?case using "6.IH" by blast
next
  case (7 a st)
  have "ms (Star a) st =
          concat (map (\<lambda>m. if length (fst m) < length (fst st) then ms (Star a) m else [])
                      (ms a st)) @ [st]"
    by (rule ms_Star)
  with "7.prems" consider "st' = st"
    | m where "m \<in> set (ms a st)" "length (fst m) < length (fst st)" "st' \<in> set (ms (Star a) m)"
    by (auto split: if_splits)
  then show ?case
  proof cases
    case 1
    then show ?thesis by simp
  next
    case (2 m)
    from "7.IH"(1)[OF 2(1)] obtain w1 where w1: "fst st = w1 @ fst m" by blast
    from "7.IH"(2)[OF 2(1) 2(2) 2(3)] obtain w2 where w2: "fst m = w2 @ fst st'" by blast
    from w1 w2 have "fst st = (w1 @ w2) @ fst st'" by simp
    then show ?thesis by blast
  qed
next
  case (8 n a s cs)
  then show ?case by auto
qed

lemma ms_length_le:
  "st' \<in> set (ms r st) \<Longrightarrow> length (fst st') \<le> length (fst st)"
  using ms_suffix[of st' r st] by auto

lemma ms_Lit_first_shorter:
  assumes "st' \<in> set (ms (Cat (Lit c) r) st)"
  shows "length (fst st') < length (fst st)"
proof -
  from assms obtain m where m: "m \<in> set (ms (Lit c) st)" and st': "st' \<in> set (ms r m)"
    by auto
  from m have "length (fst m) < length (fst st)"
    by (cases st) (auto split: list.splits if_splits)
  with ms_length_le[OF st'] show ?thesis by simp
qed

lemma linkRegex_shorter:
  assumes "st' \<in> set (ms linkRegex st)"
  shows "length (fst st') < length (fst st)"
proof -
  from assms have "st' \<in> set (ms mdLink st) \<or> st' \<in> set (ms wikiLink st)"
    by (simp add: linkRegex_def)
  then show ?thesis
    unfolding mdLink_def wikiLink_def seq.simps by (blast dest: ms_Lit_first_shorter)
qed

lemma regExpBuiltinExec_Some:
  "regExpBuiltinExec R S i = (Some m, e) \<Longrightarrow>
     i \<le> index m \<and> index m \<le> length S \<and>
     (\<exists>rest. first_match R (drop (index m) S) = Some (rest, groups m) \<and>
             e = length S - length rest) \<and>
     (\<forall>j. i \<le> j \<and> j < index m \<longrightarrow> first_match R (drop j S) = None)"
proof (induction R S i rule: regExpBuiltinExec.induct)
  case (1 R S i)
  note unfold = regExpBuiltinExec.simps[of R S i]
  show ?case
  proof (cases "length S < i")
    case True
    with "1.prems" unfold show ?thesis by simp
  next
    case False
    show ?thesis
    proof (cases "first_match R (drop i S)")
      case None
      with False "1.prems" unfold have "regExpBuiltinExec R S (i + 1) = (Some m, e)" by simp
      from "1.IH"[OF False None this] have
        a: "i + 1 \<le> index m" "index m \<le> length S" and
        b: "\<exists>rest. first_match R (drop (index m) S) = Some (rest, groups m) \<and>
                  e = length S - length rest" and
        c: "\<forall>j. i + 1 \<le> j \<and> j < index m \<longrightarrow> first_match R (drop j S) = None"
        by blast+
      have "first_match R (drop j S) = None" if "i \<le> j" "j < index m" for j
      proof (cases "j = i")
        case True
        with None show ?thesis by simp
      next
        case False
        with that have "i + 1 \<le> j" by simp
        with c that show ?thesis by blast
      qed
      with a b show ?thesis by auto
    next
      case (Some st)
      obtain rest cap where st: "st = (rest, cap)" by (cases st)
      from Some st False "1.prems" unfold
      have "m = \<lparr>index = i, groups = cap\<rparr>" "e = length S - length rest" by simp_all
      with Some st False show ?thesis by auto
    qed
  qed
qed

lemma first_match_Some_mem:
  "first_match r s = Some st \<Longrightarrow> st \<in> set (ms r (s, \<lambda>n. None))"
  by (auto simp: first_match_def split: list.splits)

lemma exec_progress:
  assumes shorter: "\<And>st st'. st' \<in> set (ms R st) \<Longrightarrow> length (fst st') < length (fst st)"
    and ex: "regExpBuiltinExec R S i = (Some m, e)"
  shows "i < e \<and> e \<le> length S \<and> index m < e"
proof -
  from regExpBuiltinExec_Some[OF ex] obtain rest where
    i: "i \<le> index m" "index m \<le> length S" and
    fm: "first_match R (drop (index m) S) = Some (rest, groups m)" and
    e: "e = length S - length rest"
    by blast
  from shorter[OF first_match_Some_mem[OF fm]]
  have "length rest < length S - index m" by simp
  with i e show ?thesis by auto
qed

lemma linkRegex_exec_measure:
  assumes "(x, y) = regExpBuiltinExec linkRegex S i" and "x = Some m"
  shows "Suc (length S) - y < Suc (length S) - i"
proof -
  from assms have "regExpBuiltinExec linkRegex S i = (Some m, y)" by simp
  from exec_progress[OF linkRegex_shorter this] show ?thesis by linarith
qed

text \<open>
  The loop of \<^verbatim>\<open>findAudioLinkMatches\<close>: \<^verbatim>\<open>lastIndex\<close> is the state of the pattern
  object, \<^verbatim>\<open>results\<close> the array that \<^verbatim>\<open>push\<close> extends.
\<close>

function findAudioLinkMatches_loop :: "string \<Rightarrow> nat \<Rightarrow> LinkMatch list \<Rightarrow> LinkMatch list" where
  "findAudioLinkMatches_loop noteContent lastIndex results =
     (case regExpBuiltinExec linkRegex noteContent lastIndex of
        (None, _) \<Rightarrow> results
      | (Some match, lastIndex') \<Rightarrow>
          (case or_else (groups match 2) (groups match 3) of
             None \<Rightarrow> findAudioLinkMatches_loop noteContent lastIndex' results
           | Some t \<Rightarrow>
               if t = [] then findAudioLinkMatches_loop noteContent lastIndex' results
               else findAudioLinkMatches_loop noteContent lastIndex'
                      (results @ [\<lparr>linkText = t, startPos = index match, endPos = lastIndex'\<rparr>])))"
  by pat_completeness auto
termination
proof (relation "measure (\<lambda>(S, i, acc). Suc (length S) - i)")
  show "wf (measure (\<lambda>(S, i, acc). Suc (length S) - i))" by simp
qed (auto dest: linkRegex_exec_measure)

declare findAudioLinkMatches_loop.simps [simp del]

definition findAudioLinkMatches :: "string \<Rightarrow> LinkMatch list" where
  "findAudioLinkMatches noteContent = findAudioLinkMatches_loop noteContent 0 []"

text \<open>
  \<^verbatim>\<open>resolveMatchesToFiles\<close>: \<^verbatim>\<open>getFirstLinkpathDest\<close> is the link resolution of the
  host's metadata cache, \<open>None\<close> for \<^verbatim>\<open>null\<close>.  The loop pushes to \<^verbatim>\<open>results\<close>.
\<close>

fun resolveMatchesToFiles_loop ::
  "(string \<Rightarrow> string \<Rightarrow> TFile option) \<Rightarrow> LinkMatch list \<Rightarrow> string \<Rightarrow> AudioLinkFile list
     \<Rightarrow> AudioLinkFile list" where
  "resolveMatchesToFiles_loop getFirstLinkpathDest [] currentFilePath results = results"
| "resolveMatchesToFiles_loop getFirstLinkpathDest (match # linkMatches) currentFilePath results =
     (case getFirstLinkpathDest (linkText match) currentFilePath of
        None \<Rightarrow> resolveMatchesToFiles_loop getFirstLinkpathDest linkMatches currentFilePath results
      | Some f \<Rightarrow>
          resolveMatchesToFiles_loop getFirstLinkpathDest linkMatches currentFilePath
            (results @ [\<lparr>tfile = f, AudioLinkFile.startPos = startPos match,
                         AudioLinkFile.endPos = endPos match\<rparr>]))"

definition resolveMatchesToFiles ::
  "(string \<Rightarrow> string \<Rightarrow> TFile option) \<Rightarrow> LinkMatch list \<Rightarrow> string \<Rightarrow> AudioLinkFile list" where
  "resolveMatchesToFiles getFirstLinkpathDest linkMatches currentFilePath =
     resolveMatchesToFiles_loop getFirstLinkpathDest linkMatches currentFilePath []"

section \<open>main.ts: the scanner of the single-file plugin\<close>

text \<open>
  \<^verbatim>\<open>\[([^\]]*)\]\(([^)]+(?:mp3|wav|m4a|flac|ogg|aac))\)|\[\[([^\[]+(?:mp3|wav|m4a|flac|ogg|aac))\]\]\<close>
  with the flags \<^verbatim>\<open>gi\<close>: the class of the third group is \<^verbatim>\<open>[^\[]\<close> here.
\<close>

definition mainWikiLink :: regex where
  "mainWikiLink =
     seq [Lit CHR ''['', Lit CHR ''['',
          Grp 3 (Cat (Plus (NotLit CHR ''['')) extPattern), Lit CHR '']'', Lit CHR '']'']"

definition mainLinkRegex :: regex where
  "mainLinkRegex = Alt mdLink mainWikiLink"

lemma mainLinkRegex_shorter:
  assumes "st' \<in> set (ms mainLinkRegex st)"
  shows "length (fst st') < length (fst st)"
proof -
  from assms have "st' \<in> set (ms mdLink st) \<or> st' \<in> set (ms mainWikiLink st)"
    by (simp add: mainLinkRegex_def)
  then show ?thesis
    unfolding mdLink_def mainWikiLink_def seq.simps by (blast dest: ms_Lit_first_shorter)
qed

lemma mainLinkRegex_exec_measure:
  assumes "(x, y) = regExpBuiltinExec mainLinkRegex S i" and "x = Some m"
  shows "Suc (length S) - y < Suc (length S) - i"
proof -
  from assms have "regExpBuiltinExec mainLinkRegex S i = (Some m, y)" by simp
  from exec_progress[OF mainLinkRegex_shorter this] show ?thesis by linarith
qed

function findAudioLinks_loop :: "string \<Rightarrow> nat \<Rightarrow> AudioLink list \<Rightarrow> AudioLink list" where
  "findAudioLinks_loop noteContent lastIndex results =
     (case regExpBuiltinExec mainLinkRegex noteContent lastIndex of
        (None, _) \<Rightarrow> results
      | (Some match, lastIndex') \<Rightarrow>
          (case or_else (groups match 2) (groups match 3) of
             None \<Rightarrow> findAudioLinks_loop noteContent lastIndex' results
           | Some t \<Rightarrow>
               if t = [] then findAudioLinks_loop noteContent lastIndex' results
               else findAudioLinks_loop noteContent lastIndex'
                      (results @ [\<lparr>filePath = t, AudioLink.startPos = index match,
                                   AudioLink.endPos = lastIndex'\<rparr>])))"
  by pat_completeness auto
termination
proof (relation "measure (\<lambda>(S, i, acc). Suc (length S) - i)")
  show "wf (measure (\<lambda>(S, i, acc). Suc (length S) - i))" by simp
qed (auto dest: mainLinkRegex_exec_measure)

declare findAudioLinks_loop.simps [simp del]

definition findAudioLinks :: "string \<Rightarrow> AudioLink list" where
  "findAudioLinks noteContent = findAudioLinks_loop noteContent 0 []"

section \<open>transcription.ts\<close>

text \<open>
  \<^verbatim>\<open>path.basename\<close> of the platform library, in its POSIX form (the plugin calls
  \<^verbatim>\<open>/opt/homebrew/bin/whisper\<close> and writes to \<^verbatim>\<open>/tmp\<close>): trailing slashes are dropped,
  and the result is what follows the last slash that is left.
\<close>

definition basename :: "string \<Rightarrow> string" where
  "basename p =
     rev (takeWhile (\<lambda>c. c \<noteq> CHR ''/'') (dropWhile (\<lambda>c. c = CHR ''/'') (rev p)))"

text \<open>\<^verbatim>\<open>/\.(mp3|wav|m4a|flac|ogg|aac)$/i\<close>\<close>

definition transcriptExtRegex :: regex where
  "transcriptExtRegex = seq [Lit CHR ''.'', Grp 1 extPattern, Eoi]"

text \<open>
  \<^verbatim>\<open>String.prototype.replace\<close> with a pattern without the \<^verbatim>\<open>g\<close> flag and a
  replacement that has no \<^verbatim>\<open>$\<close>: the first match, searched from index 0, is replaced.
\<close>

definition replace :: "string \<Rightarrow> regex \<Rightarrow> string \<Rightarrow> string" where
  "replace s r replacement =
     (case regExpBuiltinExec r s 0 of
        (None, _) \<Rightarrow> s
      | (Some match, e) \<Rightarrow> take (index match) s @ replacement @ drop e s)"

definition getTranscriptPathInTmp :: "string \<Rightarrow> string" where
  "getTranscriptPathInTmp audioPath =
     (let baseName = basename audioPath;
          coreName = replace baseName transcriptExtRegex []
      in ''/tmp/'' @ coreName @ ''.txt'')"

text \<open>
  The file system, as \<^verbatim>\<open>fs.readFileSync(path, "utf-8")\<close> sees it: the text of a file,
  or the error that is thrown.
\<close>

datatype fs_error = ENOENT | EACCES | EISDIR

type_synonym filesystem = "string \<Rightarrow> fs_error + string"

text \<open>
  \<^verbatim>\<open>String.prototype.trim\<close>: the white space and the line terminators of ECMA-262,
  among the code units below 256: TAB, LF, VT, FF, CR, SP and NBSP.
\<close>

definition isWhiteSpace :: "char \<Rightarrow> bool" where
  "isWhiteSpace c =
     (c \<in> set [CHR 0x09, CHR 0x0A, CHR 0x0B, CHR 0x0C, CHR 0x0D, CHR 0x20, CHR 0xA0])"

definition trim :: "string \<Rightarrow> string" where
  "trim s = rev (dropWhile isWhiteSpace (rev (dropWhile isWhiteSpace s)))"

definition readTranscriptFile :: "filesystem \<Rightarrow> string \<Rightarrow> fs_error + string" where
  "readTranscriptFile fs transcriptPath =
     (case fs transcriptPath of
        Inl err \<Rightarrow> Inl err
      | Inr data \<Rightarrow> Inr (trim data))"

section \<open>insert\_transcript.ts\<close>

text \<open>
  \<^verbatim>\<open>String.prototype.split\<close> with a separator of one character and no limit: the
  segments between the separators, one more than there are separators.
\<close>

fun split :: "char \<Rightarrow> string \<Rightarrow> string list" where
  "split sep [] = [[]]"
| "split sep (x # xs) =
     (if x = sep then [] # split sep xs
      else (x # hd (split sep xs)) # tl (split sep xs))"

text \<open>
  Modelled from the spec: the editor of the host (\<^verbatim>\<open>Editor\<close> of the obsidian package,
  which is not part of the repository), "an operation to insert text at a
  line/column position".  The state of the editor is the text of the document, which
  \<^verbatim>\<open>getValue\<close> returns; its lines are separated by the newline character.
  \<^verbatim>\<open>replaceRange(text, from)\<close> without a \<^verbatim>\<open>to\<close> inserts the text at the offset of
  \<^verbatim>\<open>from\<close>.  A position after the last line is the end of the document, and a column
  after the end of its line is the end of that line, as the editor clips positions.
\<close>

record EditorPosition =
  line :: nat
  ch :: nat

definition posToOffset :: "string \<Rightarrow> EditorPosition \<Rightarrow> nat" where
  "posToOffset doc pos =
     (let lines = split CHR 0x0A doc
      in if length lines \<le> line pos then length doc
         else sum_list (map (\<lambda>l. length l + 1) (take (line pos) lines))
              + min (ch pos) (length (lines ! line pos)))"

definition replaceRange :: "string \<Rightarrow> string \<Rightarrow> EditorPosition \<Rightarrow> string" where
  "replaceRange doc replacement from =
     take (posToOffset doc from) doc @ replacement @ drop (posToOffset doc from) doc"

text \<open>\<^verbatim>\<open>preText.split("\n").length - 1\<close>: the lines before \<^verbatim>\<open>endPos\<close>.\<close>

definition lineIndex :: "string \<Rightarrow> nat \<Rightarrow> nat" where
  "lineIndex content end_pos =
     (let preText = take end_pos content
      in length (split CHR 0x0A preText) - 1)"

definition insertionPos :: "string \<Rightarrow> nat \<Rightarrow> EditorPosition" where
  "insertionPos content end_pos = \<lparr>line = lineIndex content end_pos + 1, ch = 0\<rparr>"

definition insertionText :: "string \<Rightarrow> string" where
  "insertionText transcript =
     [CHR 0x0A] @ ''>[!note] Transcription'' @ [CHR 0x0A] @ transcript @ [CHR 0x0A]"

text \<open>
  \<^verbatim>\<open>insertTranscriptBelowRange\<close>: the editor before and after.  \<^verbatim>\<open>startPos\<close> is a
  parameter that the function does not read (\<open>start_pos\<close> and \<open>end_pos\<close> here, since
  \<open>startPos\<close> and \<open>endPos\<close> name the fields of the records).
\<close>

definition insertTranscriptBelowRange :: "string \<Rightarrow> nat \<Rightarrow> nat \<Rightarrow> string \<Rightarrow> string" where
  "insertTranscriptBelowRange editor start_pos end_pos transcript =
     (let content = editor
      in replaceRange editor (insertionText transcript) (insertionPos content end_pos))"

section \<open>choose\_link\_modal.ts\<close>

text \<open>
  What \<^verbatim>\<open>onOpen\<close> puts into the modal: a heading, for every item a button with the
  path of its file and a line break, and a Cancel button.  A button carries the value
  that its click handler passes to \<^verbatim>\<open>resolveFn\<close>, \<open>None\<close> for \<^verbatim>\<open>null\<close>.
\<close>

datatype ui_element = H2 string | Button string "AudioLinkFile option" | Br

definition onOpen :: "AudioLinkFile list \<Rightarrow> ui_element list" where
  "onOpen items =
     [H2 ''Choose an audio link to transcribe'']
     @ concat (map (\<lambda>item. [Button (path (tfile item)) (Some item), Br]) items)
     @ [Button ''Cancel'' None]"

fun buttons :: "ui_element list \<Rightarrow> (string \<times> AudioLinkFile option) list" where
  "buttons [] = []"
| "buttons (Button label v # els) = (label, v) # buttons els"
| "buttons (_ # els) = buttons els"

text \<open>
  The user answers a modal with a click on one of its buttons, counted from 0, or
  closes it without a click; then \<^verbatim>\<open>onClose\<close> empties the modal and \<^verbatim>\<open>resolveFn\<close> is
  never called, so the promise of \<^verbatim>\<open>chooseAudioLinkModal\<close> stays pending.
\<close>

datatype user_action = Click nat | Close

datatype 'a promise = Resolved 'a | Pending

definition chooseAudioLinkModal ::
  "(ui_element list \<Rightarrow> user_action) \<Rightarrow> AudioLinkFile list \<Rightarrow> AudioLinkFile option promise" where
  "chooseAudioLinkModal answer items =
     (case answer (onOpen items) of
        Close \<Rightarrow> Pending
      | Click k \<Rightarrow>
          if k < length (buttons (onOpen items))
          then Resolved (snd (buttons (onOpen items) ! k))
          else Pending)"

section \<open>The command of the plugin\<close>

text \<open>
  The collaborators of the host that the command calls: the link resolution of the
  metadata cache, the user in front of a modal, the adapter of the vault,
  \<^verbatim>\<open>path.join\<close>, and \<^verbatim>\<open>execFile\<close>, which either fails (a spawn error or an exit
  status other than 0) or returns the two outputs and the file system that the
  process leaves behind.
\<close>

datatype adapter = FileSystemAdapter string | OtherAdapter

record host =
  currentFilePath :: string
  getFirstLinkpathDest :: "string \<Rightarrow> string \<Rightarrow> TFile option"
  userAnswer :: "ui_element list \<Rightarrow> user_action"
  vaultAdapter :: adapter
  pathJoin :: "string \<Rightarrow> string \<Rightarrow> string"
  execFile :: "string \<Rightarrow> string list \<Rightarrow> filesystem \<Rightarrow> string + string \<times> string \<times> filesystem"

text \<open>
  What the command can change: the text in the editor, the notices shown to the user,
  the lines of the console, the modals opened, and the file system.
\<close>

record world =
  editorText :: string
  notices :: "string list"
  console :: "string list"
  modals :: "ui_element list list"
  files :: filesystem

definition Notice :: "string \<Rightarrow> world \<Rightarrow> world" where
  "Notice message w = w\<lparr>notices := notices w @ [message]\<rparr>"

definition console_log :: "string \<Rightarrow> world \<Rightarrow> world" where
  "console_log entry w = w\<lparr>console := console w @ [entry]\<rparr>"

text \<open>
  \<^verbatim>\<open>runWhisperCLI\<close> of transcription.ts: \<open>Inl\<close> is the error that the rejected promise
  of \<^verbatim>\<open>execFileAsync\<close> throws.
\<close>

definition runWhisperCLI :: "host \<Rightarrow> string \<Rightarrow> string \<Rightarrow> string \<Rightarrow> world \<Rightarrow> (string + unit) \<times> world" where
  "runWhisperCLI h whisperBinPath audioPath model w =
     (let whisperPath = (if whisperBinPath = [] then ''whisper'' else whisperBinPath);
          args = [audioPath, ''--model'', model, ''--output_format'', ''txt'',
                  ''--output_dir'', ''/tmp''];
          w1 = console_log ''[Transcription] Running whisper:'' w
      in case execFile h whisperPath args (files w1) of
           Inl err \<Rightarrow> (Inl err, w1)
         | Inr (stdout, stderr, fs) \<Rightarrow>
             (let w2 = w1\<lparr>files := fs\<rparr>;
                  w3 = (if stdout \<noteq> [] then console_log (''Whisper stdout: '' @ stdout) w2 else w2);
                  w4 = (if stderr \<noteq> [] then console_log (''Whisper stderr: '' @ stderr) w3 else w3)
              in (Inr (), w4)))"

text \<open>
  \<^verbatim>\<open>transcribeAudioInCurrentNote\<close>, from the notice "Transcribing" on: the steps 4 to 7
  for the selected link.
\<close>

definition transcribeSelected :: "host \<Rightarrow> AudioLinkFile \<Rightarrow> world \<Rightarrow> world" where
  "transcribeSelected h selected w =
     (let w1 = Notice (''Transcribing: '' @ path (tfile selected) @ '' ...'') w
      in case vaultAdapter h of
           OtherAdapter \<Rightarrow> Notice ''Your vault is not on a local file system.'' w1
         | FileSystemAdapter vaultRoot \<Rightarrow>
             (let absoluteAudioPath = pathJoin h vaultRoot (path (tfile selected))
              in case runWhisperCLI h ''/opt/homebrew/bin/whisper'' absoluteAudioPath ''medium'' w1 of
                   (Inl err, w2) \<Rightarrow>
                     Notice ''Error running Whisper. See console for details.''
                       (console_log (''Error running Whisper: '' @ err) w2)
                 | (Inr _, w2) \<Rightarrow>
                     (let transcriptPath = getTranscriptPathInTmp absoluteAudioPath
                      in case readTranscriptFile (files w2) transcriptPath of
                           Inl e \<Rightarrow>
                             Notice ''Could not read the transcript file.''
                               (console_log ''Could not read transcript:'' w2)
                         | Inr transcript \<Rightarrow>
                             Notice ''Transcription inserted!''
                               (w2\<lparr>editorText :=
                                     insertTranscriptBelowRange (editorText w2)
                                       (AudioLinkFile.startPos selected)
                                       (AudioLinkFile.endPos selected) transcript\<rparr>))))"

text \<open>
  \<^verbatim>\<open>transcribeAudioInCurrentNote\<close>: the steps 1 to 3.  With a pending promise the
  function never resumes, and the world stays as the modal left it.
\<close>

definition transcribeAudioInCurrentNote :: "host \<Rightarrow> world \<Rightarrow> world" where
  "transcribeAudioInCurrentNote h w =
     (let noteContent = editorText w;
          linkMatches = findAudioLinkMatches noteContent;
          audioFiles = resolveMatchesToFiles (getFirstLinkpathDest h) linkMatches (currentFilePath h)
      in if length audioFiles = 0 then Notice ''No valid audio links found in this note.'' w
         else if length audioFiles = 1 then transcribeSelected h (audioFiles ! 0) w
         else (let w1 = w\<lparr>modals := modals w @ [onOpen audioFiles]\<rparr>
               in case chooseAudioLinkModal (userAnswer h) audioFiles of
                    Pending \<Rightarrow> w1
                  | Resolved None \<Rightarrow> w1
                  | Resolved (Some chosen) \<Rightarrow> transcribeSelected h chosen w1))"

section \<open>What the patterns match\<close>

text \<open>
  Two words are equal up to the case of their ASCII letters, the comparison that the
  \<^verbatim>\<open>i\<close> flag makes.
\<close>

definition ci_eq :: "string \<Rightarrow> string \<Rightarrow> bool" where
  "ci_eq v w = (map canonicalize v = map canonicalize w)"

lemma canonicalize_punct:
  "canonicalize x = canonicalize CHR ''['' \<longleftrightarrow> x = CHR ''[''"
  "canonicalize x = canonicalize CHR '']'' \<longleftrightarrow> x = CHR '']''"
  "canonicalize x = canonicalize CHR ''('' \<longleftrightarrow> x = CHR ''(''"
  "canonicalize x = canonicalize CHR '')'' \<longleftrightarrow> x = CHR '')''"
  "canonicalize x = canonicalize CHR ''.'' \<longleftrightarrow> x = CHR ''.''"
  by (auto simp: canonicalize_def)

lemma mem_Lit:
  "(t, cs') \<in> set (ms (Lit c) (s, cs)) \<longleftrightarrow>
     cs' = cs \<and> (\<exists>x. s = x # t \<and> canonicalize x = canonicalize c)"
  by (cases s) auto

lemma mem_Cat:
  "(t, cs') \<in> set (ms (Cat a b) st) \<longleftrightarrow>
     (\<exists>u cs''. (u, cs'') \<in> set (ms a st) \<and> (t, cs') \<in> set (ms b (u, cs'')))"
  by auto

lemma star_NotLit_Nil: "ms (Star (NotLit c)) ([], cs) = [([], cs)]"
  by (simp add: ms_Star)

lemma star_NotLit_Cons:
  "ms (Star (NotLit c)) (x # xs, cs) =
     (if canonicalize x = canonicalize c then [] else ms (Star (NotLit c)) (xs, cs))
     @ [(x # xs, cs)]"
  by (simp add: ms_Star)

lemma mem_Star_NotLit:
  "(t, cs') \<in> set (ms (Star (NotLit c)) (s, cs)) \<longleftrightarrow>
     cs' = cs \<and> (\<exists>w. s = w @ t \<and> (\<forall>x\<in>set w. canonicalize x \<noteq> canonicalize c))"
proof (induction s)
  case Nil
  show ?case by (auto simp: star_NotLit_Nil)
next
  case (Cons x xs)
  show ?case
  proof (cases "canonicalize x = canonicalize c")
    case True
    have "(\<exists>w. x # xs = w @ t \<and> (\<forall>y\<in>set w. canonicalize y \<noteq> canonicalize c)) \<longleftrightarrow> t = x # xs"
    proof
      assume "\<exists>w. x # xs = w @ t \<and> (\<forall>y\<in>set w. canonicalize y \<noteq> canonicalize c)"
      then obtain w where w: "x # xs = w @ t" "\<forall>y\<in>set w. canonicalize y \<noteq> canonicalize c"
        by blast
      with True show "t = x # xs" by (cases w) auto
    next
      assume "t = x # xs"
      then have "x # xs = [] @ t \<and> (\<forall>y\<in>set []. canonicalize y \<noteq> canonicalize c)" by simp
      then show "\<exists>w. x # xs = w @ t \<and> (\<forall>y\<in>set w. canonicalize y \<noteq> canonicalize c)"
        by blast
    qed
    with True show ?thesis by (auto simp: star_NotLit_Cons)
  next
    case False
    have "(\<exists>w. x # xs = w @ t \<and> (\<forall>y\<in>set w. canonicalize y \<noteq> canonicalize c)) \<longleftrightarrow>
          t = x # xs \<or> (\<exists>w. xs = w @ t \<and> (\<forall>y\<in>set w. canonicalize y \<noteq> canonicalize c))"
      (is "?L \<longleftrightarrow> ?R")
    proof
      assume ?L
      then obtain w where w: "x # xs = w @ t" "\<forall>y\<in>set w. canonicalize y \<noteq> canonicalize c"
        by blast
      show ?R
      proof (cases w)
        case Nil
        with w show ?thesis by simp
      next
        case (Cons y ys)
        with w have "xs = ys @ t" "\<forall>y\<in>set ys. canonicalize y \<noteq> canonicalize c" by auto
        then show ?thesis by blast
      qed
    next
      assume ?R
      then show ?L
      proof
        assume "t = x # xs"
        then have "x # xs = [] @ t \<and> (\<forall>y\<in>set []. canonicalize y \<noteq> canonicalize c)" by simp
        then show ?L by blast
      next
        assume "\<exists>w. xs = w @ t \<and> (\<forall>y\<in>set w. canonicalize y \<noteq> canonicalize c)"
        then obtain w where "xs = w @ t" "\<forall>y\<in>set w. canonicalize y \<noteq> canonicalize c" by blast
        with False have "x # xs = (x # w) @ t \<and> (\<forall>y\<in>set (x # w). canonicalize y \<noteq> canonicalize c)"
          by simp
        then show ?L by blast
      qed
    qed
    with False Cons show ?thesis by (auto simp: star_NotLit_Cons)
  qed
qed

lemma mem_Plus_NotLit:
  "(t, cs') \<in> set (ms (Plus (NotLit c)) (s, cs)) \<longleftrightarrow>
     cs' = cs \<and> (\<exists>w. s = w @ t \<and> w \<noteq> [] \<and> (\<forall>x\<in>set w. canonicalize x \<noteq> canonicalize c))"
  (is "?L \<longleftrightarrow> ?R")
proof
  assume ?L
  then obtain u cs'' where u: "(u, cs'') \<in> set (ms (NotLit c) (s, cs))"
    and t: "(t, cs') \<in> set (ms (Star (NotLit c)) (u, cs''))"
    unfolding Plus_def mem_Cat by blast
  from u obtain x where x: "s = x # u" "canonicalize x \<noteq> canonicalize c" "cs'' = cs"
    by (cases s) (auto split: if_splits)
  from t obtain w where w: "cs' = cs''" "u = w @ t" "\<forall>y\<in>set w. canonicalize y \<noteq> canonicalize c"
    unfolding mem_Star_NotLit by blast
  from x w have "s = (x # w) @ t \<and> x # w \<noteq> [] \<and> (\<forall>y\<in>set (x # w). canonicalize y \<noteq> canonicalize c)"
    by simp
  with x w show ?R by blast
next
  assume ?R
  then obtain w where w: "cs' = cs" "s = w @ t" "w \<noteq> []" "\<forall>y\<in>set w. canonicalize y \<noteq> canonicalize c"
    by blast
  then obtain x ws where xw: "w = x # ws" by (cases w) auto
  with w have 1: "(ws @ t, cs) \<in> set (ms (NotLit c) (s, cs))" by simp
  from w xw have "(t, cs') \<in> set (ms (Star (NotLit c)) (ws @ t, cs))"
    unfolding mem_Star_NotLit by auto
  with 1 show ?L unfolding Plus_def mem_Cat by blast
qed


lemma ci_eq_Nil [simp]: "ci_eq v [] \<longleftrightarrow> v = []"
  by (simp add: ci_eq_def)

lemma ci_eq_Cons:
  "ci_eq v (c # w) \<longleftrightarrow> (\<exists>x v'. v = x # v' \<and> canonicalize x = canonicalize c \<and> ci_eq v' w)"
  by (cases v) (auto simp: ci_eq_def)

lemma ci_eq_length: "ci_eq v w \<Longrightarrow> length v = length w"
  unfolding ci_eq_def by (rule map_eq_imp_length_eq)

lemma mem_lits:
  "(t, cs') \<in> set (ms (lits w) (s, cs)) \<longleftrightarrow> cs' = cs \<and> (\<exists>v. s = v @ t \<and> ci_eq v w)"
proof (induction w arbitrary: s)
  case Nil
  show ?case by (auto simp: lits_def)
next
  case (Cons c w)
  note IH = Cons.IH
  show ?case
  proof (cases w)
    case Nil
    have "lits [c] = Lit c" by (simp add: lits_def)
    then have "(t, cs') \<in> set (ms (lits [c]) (s, cs)) \<longleftrightarrow>
                 cs' = cs \<and> (\<exists>x. s = x # t \<and> canonicalize x = canonicalize c)"
      by (simp only: mem_Lit)
    moreover have "(\<exists>x. s = x # t \<and> canonicalize x = canonicalize c) \<longleftrightarrow>
                   (\<exists>v. s = v @ t \<and> ci_eq v [c])"
    proof
      assume "\<exists>x. s = x # t \<and> canonicalize x = canonicalize c"
      then obtain x where "s = [x] @ t \<and> ci_eq [x] [c]" by (auto simp: ci_eq_def)
      then show "\<exists>v. s = v @ t \<and> ci_eq v [c]" by blast
    next
      assume "\<exists>v. s = v @ t \<and> ci_eq v [c]"
      then obtain v where v: "s = v @ t" "ci_eq v [c]" by blast
      then obtain x where "v = [x]" "canonicalize x = canonicalize c"
        unfolding ci_eq_Cons by auto
      with v show "\<exists>x. s = x # t \<and> canonicalize x = canonicalize c" by simp
    qed
    ultimately show ?thesis using Nil by blast
  next
    case (Cons d w')
    then have unfold: "lits (c # w) = Cat (Lit c) (lits w)" by (simp add: lits_def)
    show ?thesis
    proof
      assume "(t, cs') \<in> set (ms (lits (c # w)) (s, cs))"
      then obtain u cs'' where 1: "(u, cs'') \<in> set (ms (Lit c) (s, cs))"
        and 2: "(t, cs') \<in> set (ms (lits w) (u, cs''))"
        unfolding unfold mem_Cat by blast
      from 1 obtain x where x: "cs'' = cs" "s = x # u" "canonicalize x = canonicalize c"
        unfolding mem_Lit by blast
      from 2 x have "(t, cs') \<in> set (ms (lits w) (u, cs))" by simp
      then obtain v where v: "cs' = cs" "u = v @ t" "ci_eq v w"
        unfolding IH by blast
      from x v have "s = (x # v) @ t \<and> ci_eq (x # v) (c # w)" by (simp add: ci_eq_def)
      with v show "cs' = cs \<and> (\<exists>v. s = v @ t \<and> ci_eq v (c # w))" by blast
    next
      assume "cs' = cs \<and> (\<exists>v. s = v @ t \<and> ci_eq v (c # w))"
      then obtain v where v: "cs' = cs" "s = v @ t" "ci_eq v (c # w)" by blast
      then obtain x v' where x: "v = x # v'" "canonicalize x = canonicalize c" "ci_eq v' w"
        unfolding ci_eq_Cons by blast
      with v have 1: "(v' @ t, cs) \<in> set (ms (Lit c) (s, cs))"
        unfolding mem_Lit by simp
      from v x have 2: "(t, cs') \<in> set (ms (lits w) (v' @ t, cs))"
        unfolding IH by blast
      from 1 2 show "(t, cs') \<in> set (ms (lits (c # w)) (s, cs))"
        unfolding unfold mem_Cat by blast
    qed
  qed
qed

lemma set_ms_alts:
  "set (ms (alts (a # rs)) st) = (\<Union>r\<in>set (a # rs). set (ms r st))"
proof (induction rs arbitrary: a)
  case Nil
  show ?case by simp
next
  case (Cons b rs)
  have "alts (a # b # rs) = Alt a (alts (b # rs))" by simp
  then have "set (ms (alts (a # b # rs)) st) = set (ms a st) \<union> set (ms (alts (b # rs)) st)"
    by simp
  with Cons.IH[of b] show ?case by simp
qed

lemma mem_extPattern:
  "(t, cs') \<in> set (ms extPattern (s, cs)) \<longleftrightarrow>
     cs' = cs \<and> (\<exists>v e. s = v @ t \<and> e \<in> set audioExtensions \<and> ci_eq v e)"
proof -
  have "extPattern = alts (lits ''mp3'' # map lits [''wav'', ''m4a'', ''flac'', ''ogg'', ''aac''])"
    by (simp add: extPattern_def audioExtensions_def)
  moreover have "set (ms (alts (lits ''mp3'' # map lits [''wav'', ''m4a'', ''flac'', ''ogg'', ''aac'']))
                   (s, cs)) =
      (\<Union>r\<in>set (lits ''mp3'' # map lits [''wav'', ''m4a'', ''flac'', ''ogg'', ''aac'']).
         set (ms r (s, cs)))"
    by (rule set_ms_alts)
  ultimately have "set (ms extPattern (s, cs)) =
      (\<Union>r\<in>set (lits ''mp3'' # map lits [''wav'', ''m4a'', ''flac'', ''ogg'', ''aac'']).
         set (ms r (s, cs)))"
    by simp
  also have "\<dots> = (\<Union>e\<in>set audioExtensions. set (ms (lits e) (s, cs)))"
    by (simp add: audioExtensions_def)
  finally have "(t, cs') \<in> set (ms extPattern (s, cs)) \<longleftrightarrow>
      (\<exists>e\<in>set audioExtensions. (t, cs') \<in> set (ms (lits e) (s, cs)))"
    by simp
  then show ?thesis unfolding mem_lits by blast
qed

lemma mem_Grp:
  "(t, cs') \<in> set (ms (Grp n a) (s, cs)) \<longleftrightarrow>
     (\<exists>cs''. (t, cs'') \<in> set (ms a (s, cs)) \<and> cs' = cs''(n \<mapsto> take (length s - length t) s))"
  by auto

lemma mem_Grp_Star_NotLit:
  "(t, cs') \<in> set (ms (Grp n (Star (NotLit c))) (s, cs)) \<longleftrightarrow>
     (\<exists>w. s = w @ t \<and> (\<forall>x\<in>set w. canonicalize x \<noteq> canonicalize c) \<and> cs' = cs(n \<mapsto> w))"
  unfolding mem_Grp mem_Star_NotLit by auto

lemma mem_path:
  "(t, cs') \<in> set (ms (Cat (Plus (NotLit c)) extPattern) (s, cs)) \<longleftrightarrow>
     (\<exists>w v e. s = w @ v @ t \<and> w \<noteq> [] \<and> (\<forall>x\<in>set w. canonicalize x \<noteq> canonicalize c) \<and>
              e \<in> set audioExtensions \<and> ci_eq v e \<and> cs' = cs)"
  (is "?L \<longleftrightarrow> ?R")
proof
  assume ?L
  then obtain u cs'' where 1: "(u, cs'') \<in> set (ms (Plus (NotLit c)) (s, cs))"
    and 2: "(t, cs') \<in> set (ms extPattern (u, cs''))"
    unfolding mem_Cat by blast
  from 1 obtain w where w: "cs'' = cs" "s = w @ u" "w \<noteq> []"
    "\<forall>x\<in>set w. canonicalize x \<noteq> canonicalize c"
    unfolding mem_Plus_NotLit by blast
  from 2 obtain v e where v: "cs' = cs''" "u = v @ t" "e \<in> set audioExtensions" "ci_eq v e"
    unfolding mem_extPattern by blast
  from w v have "s = w @ v @ t \<and> w \<noteq> [] \<and> (\<forall>x\<in>set w. canonicalize x \<noteq> canonicalize c) \<and>
              e \<in> set audioExtensions \<and> ci_eq v e \<and> cs' = cs" by simp
  then show ?R by blast
next
  assume ?R
  then obtain w v e where *:
    "s = w @ v @ t" "w \<noteq> []" "\<forall>x\<in>set w. canonicalize x \<noteq> canonicalize c"
    "e \<in> set audioExtensions" "ci_eq v e" "cs' = cs"
    by blast
  then have 1: "(v @ t, cs) \<in> set (ms (Plus (NotLit c)) (s, cs))"
    unfolding mem_Plus_NotLit by blast
  from * have 2: "(t, cs') \<in> set (ms extPattern (v @ t, cs))"
    unfolding mem_extPattern by blast
  from 1 2 show ?L unfolding mem_Cat by blast
qed

lemma mem_Grp_path:
  "(t, cs') \<in> set (ms (Grp n (Cat (Plus (NotLit c)) extPattern)) (s, cs)) \<longleftrightarrow>
     (\<exists>w v e. s = w @ v @ t \<and> w \<noteq> [] \<and> (\<forall>x\<in>set w. canonicalize x \<noteq> canonicalize c) \<and>
              e \<in> set audioExtensions \<and> ci_eq v e \<and> cs' = cs(n \<mapsto> w @ v))"
  (is "?L \<longleftrightarrow> ?R")
proof
  assume ?L
  then have "\<exists>cs''. (t, cs'') \<in> set (ms (Cat (Plus (NotLit c)) extPattern) (s, cs)) \<and>
                cs' = cs''(n \<mapsto> take (length s - length t) s)"
    by (simp only: mem_Grp)
  then obtain cs'' where 1: "(t, cs'') \<in> set (ms (Cat (Plus (NotLit c)) extPattern) (s, cs))"
    and 2: "cs' = cs''(n \<mapsto> take (length s - length t) s)"
    by blast
  from 1 have "\<exists>w v e. s = w @ v @ t \<and> w \<noteq> [] \<and> (\<forall>x\<in>set w. canonicalize x \<noteq> canonicalize c) \<and>
              e \<in> set audioExtensions \<and> ci_eq v e \<and> cs'' = cs"
    by (simp only: mem_path)
  then obtain w v e where *:
    "s = w @ v @ t" "w \<noteq> []" "\<forall>x\<in>set w. canonicalize x \<noteq> canonicalize c"
    "e \<in> set audioExtensions" "ci_eq v e" "cs'' = cs"
    by blast
  then have "take (length s - length t) s = w @ v" by simp
  with * 2 have "s = w @ v @ t \<and> w \<noteq> [] \<and> (\<forall>x\<in>set w. canonicalize x \<noteq> canonicalize c) \<and>
              e \<in> set audioExtensions \<and> ci_eq v e \<and> cs' = cs(n \<mapsto> w @ v)" by simp
  then show ?R by blast
next
  assume R: ?R
  then obtain w v e where *:
    "s = w @ v @ t" "w \<noteq> []" "\<forall>x\<in>set w. canonicalize x \<noteq> canonicalize c"
    "e \<in> set audioExtensions" "ci_eq v e" "cs' = cs(n \<mapsto> w @ v)"
    by blast
  from *(1) have tk: "take (length s - length t) s = w @ v" by simp
  from *(1-5) have "\<exists>w v e. s = w @ v @ t \<and> w \<noteq> [] \<and>
      (\<forall>x\<in>set w. canonicalize x \<noteq> canonicalize c) \<and> e \<in> set audioExtensions \<and> ci_eq v e \<and> cs = cs"
    by blast
  then have "(t, cs) \<in> set (ms (Cat (Plus (NotLit c)) extPattern) (s, cs))"
    by (simp only: mem_path)
  moreover from *(6) tk have "cs' = cs(n \<mapsto> take (length s - length t) s)" by simp
  ultimately have "\<exists>cs''. (t, cs'') \<in> set (ms (Cat (Plus (NotLit c)) extPattern) (s, cs)) \<and>
                cs' = cs''(n \<mapsto> take (length s - length t) s)"
    by blast
  then show ?L by (simp only: mem_Grp)
qed


definition endsWithAudioExtension :: "string \<Rightarrow> bool" where
  "endsWithAudioExtension p =
     list_ex (\<lambda>e. length e < length p \<and> ci_eq (drop (length p - length e) p) e) audioExtensions"

lemma endsWithAudioExtension_iff:
  "endsWithAudioExtension p \<longleftrightarrow>
     (\<exists>w v e. p = w @ v \<and> w \<noteq> [] \<and> e \<in> set audioExtensions \<and> ci_eq v e)"
  (is "?L \<longleftrightarrow> ?R")
proof
  assume ?L
  then obtain e where e: "e \<in> set audioExtensions" "length e < length p"
    "ci_eq (drop (length p - length e) p) e"
    unfolding endsWithAudioExtension_def list_ex_iff by blast
  have "p = take (length p - length e) p @ drop (length p - length e) p" by simp
  moreover from e(2) have "take (length p - length e) p \<noteq> []" by (cases p) auto
  ultimately show ?R using e by blast
next
  assume ?R
  then obtain w v e where *: "p = w @ v" "w \<noteq> []" "e \<in> set audioExtensions" "ci_eq v e"
    by blast
  from ci_eq_length[OF *(4)] *(1,2) have "length e < length p"
    "drop (length p - length e) p = v" by auto
  with * show ?L unfolding endsWithAudioExtension_def list_ex_iff by auto
qed

lemma ci_eq_ext_chars:
  assumes "e \<in> set audioExtensions" "ci_eq v e"
  shows "CHR ''['' \<notin> set v \<and> CHR '']'' \<notin> set v \<and> CHR '')'' \<notin> set v"
proof -
  have "canonicalize c \<in> set (map canonicalize e)" if "c \<in> set v" for c
  proof -
    from that have "canonicalize c \<in> set (map canonicalize v)" by simp
    with assms(2) show ?thesis by (simp only: ci_eq_def)
  qed
  moreover have "canonicalize CHR ''['' \<notin> set (map canonicalize e)"
    "canonicalize CHR '']'' \<notin> set (map canonicalize e)"
    "canonicalize CHR '')'' \<notin> set (map canonicalize e)"
    using assms(1) by (auto simp: audioExtensions_def canonicalize_def)
  ultimately show ?thesis by blast
qed

lemma mem_Cat_Lit:
  "(t, cs') \<in> set (ms (Cat (Lit c) r) (s, cs)) \<longleftrightarrow>
     (\<exists>x u. s = x # u \<and> canonicalize x = canonicalize c \<and> (t, cs') \<in> set (ms r (u, cs)))"
  by (cases s) auto

lemma mem_Cat_Grp_Star:
  "(t, cs') \<in> set (ms (Cat (Grp n (Star (NotLit c))) r) (s, cs)) \<longleftrightarrow>
     (\<exists>w u. s = w @ u \<and> (\<forall>x\<in>set w. canonicalize x \<noteq> canonicalize c) \<and>
            (t, cs') \<in> set (ms r (u, cs(n \<mapsto> w))))"
  (is "?L \<longleftrightarrow> ?R")
proof
  assume ?L
  then have "\<exists>u c1. (u, c1) \<in> set (ms (Grp n (Star (NotLit c))) (s, cs)) \<and>
                     (t, cs') \<in> set (ms r (u, c1))"
    by (simp only: mem_Cat)
  then obtain u c1 where 1: "(u, c1) \<in> set (ms (Grp n (Star (NotLit c))) (s, cs))"
    and 2: "(t, cs') \<in> set (ms r (u, c1))" by blast
  from 1 have "\<exists>w. s = w @ u \<and> (\<forall>x\<in>set w. canonicalize x \<noteq> canonicalize c) \<and> c1 = cs(n \<mapsto> w)"
    by (simp only: mem_Grp_Star_NotLit)
  with 2 show ?R by blast
next
  assume ?R
  then obtain w u where *: "s = w @ u" "\<forall>x\<in>set w. canonicalize x \<noteq> canonicalize c"
    "(t, cs') \<in> set (ms r (u, cs(n \<mapsto> w)))" by blast
  from *(1,2) have "\<exists>w'. s = w' @ u \<and> (\<forall>x\<in>set w'. canonicalize x \<noteq> canonicalize c) \<and>
                        cs(n \<mapsto> w) = cs(n \<mapsto> w')" by blast
  then have "(u, cs(n \<mapsto> w)) \<in> set (ms (Grp n (Star (NotLit c))) (s, cs))"
    by (simp only: mem_Grp_Star_NotLit)
  with *(3) have "\<exists>u c1. (u, c1) \<in> set (ms (Grp n (Star (NotLit c))) (s, cs)) \<and>
                     (t, cs') \<in> set (ms r (u, c1))" by blast
  then show ?L by (simp only: mem_Cat)
qed

lemma mem_Cat_Grp_path:
  "(t, cs') \<in> set (ms (Cat (Grp n (Cat (Plus (NotLit c)) extPattern)) r) (s, cs)) \<longleftrightarrow>
     (\<exists>w v e u. s = w @ v @ u \<and> w \<noteq> [] \<and> (\<forall>x\<in>set w. canonicalize x \<noteq> canonicalize c) \<and>
            e \<in> set audioExtensions \<and> ci_eq v e \<and>
            (t, cs') \<in> set (ms r (u, cs(n \<mapsto> w @ v))))"
  (is "?L \<longleftrightarrow> ?R")
proof
  assume ?L
  then have "\<exists>u c1. (u, c1) \<in> set (ms (Grp n (Cat (Plus (NotLit c)) extPattern)) (s, cs)) \<and>
                     (t, cs') \<in> set (ms r (u, c1))"
    by (simp only: mem_Cat)
  then obtain u c1 where 1: "(u, c1) \<in> set (ms (Grp n (Cat (Plus (NotLit c)) extPattern)) (s, cs))"
    and 2: "(t, cs') \<in> set (ms r (u, c1))" by blast
  from 1 have "\<exists>w v e. s = w @ v @ u \<and> w \<noteq> [] \<and> (\<forall>x\<in>set w. canonicalize x \<noteq> canonicalize c) \<and>
              e \<in> set audioExtensions \<and> ci_eq v e \<and> c1 = cs(n \<mapsto> w @ v)"
    by (simp only: mem_Grp_path)
  with 2 show ?R by blast
next
  assume ?R
  then obtain w v e u where *: "s = w @ v @ u" "w \<noteq> []"
    "\<forall>x\<in>set w. canonicalize x \<noteq> canonicalize c" "e \<in> set audioExtensions" "ci_eq v e"
    "(t, cs') \<in> set (ms r (u, cs(n \<mapsto> w @ v)))" by blast
  from *(1-5) have "\<exists>w' v' e. s = w' @ v' @ u \<and> w' \<noteq> [] \<and>
      (\<forall>x\<in>set w'. canonicalize x \<noteq> canonicalize c) \<and>
      e \<in> set audioExtensions \<and> ci_eq v' e \<and> cs(n \<mapsto> w @ v) = cs(n \<mapsto> w' @ v')" by blast
  then have "(u, cs(n \<mapsto> w @ v)) \<in> set (ms (Grp n (Cat (Plus (NotLit c)) extPattern)) (s, cs))"
    by (simp only: mem_Grp_path)
  with *(6) have "\<exists>u c1. (u, c1) \<in> set (ms (Grp n (Cat (Plus (NotLit c)) extPattern)) (s, cs)) \<and>
                     (t, cs') \<in> set (ms r (u, c1))" by blast
  then show ?L by (simp only: mem_Cat)
qed


lemma not_canon_iff:
  "(\<forall>x\<in>set w. canonicalize x \<noteq> canonicalize CHR '']'') \<longleftrightarrow> CHR '']'' \<notin> set w"
  "(\<forall>x\<in>set w. canonicalize x \<noteq> canonicalize CHR '')'') \<longleftrightarrow> CHR '')'' \<notin> set w"
  "(\<forall>x\<in>set w. canonicalize x \<noteq> canonicalize CHR ''['') \<longleftrightarrow> CHR ''['' \<notin> set w"
  unfolding canonicalize_punct by blast+

lemma mem_mdLink:
  "(t, cs') \<in> set (ms mdLink (s, cs)) \<longleftrightarrow>
     (\<exists>label p. s = CHR ''['' # label @ CHR '']'' # CHR ''('' # p @ CHR '')'' # t \<and>
        CHR '']'' \<notin> set label \<and> CHR '')'' \<notin> set p \<and> endsWithAudioExtension p \<and>
        cs' = cs(1 \<mapsto> label, 2 \<mapsto> p))"
  (is "?L \<longleftrightarrow> ?R")
proof -
  let ?G2 = "Grp 2 (Cat (Plus (NotLit CHR '')'')) extPattern)"
  let ?R4 = "Cat ?G2 (Lit CHR '')'')"
  let ?R3 = "Cat (Lit CHR ''('') ?R4"
  let ?R2 = "Cat (Lit CHR '']'') ?R3"
  let ?R1 = "Cat (Grp 1 (Star (NotLit CHR '']''))) ?R2"
  have md: "mdLink = Cat (Lit CHR ''['') ?R1" by (simp add: mdLink_def)
  show ?thesis
  proof
    assume ?L
    then have "\<exists>x u. s = x # u \<and> x = CHR ''['' \<and> (t, cs') \<in> set (ms ?R1 (u, cs))"
      by (simp only: md mem_Cat_Lit canonicalize_punct)
    then obtain u1 where u1: "s = CHR ''['' # u1" and m1: "(t, cs') \<in> set (ms ?R1 (u1, cs))"
      by blast
    from m1 have "\<exists>w u. u1 = w @ u \<and> CHR '']'' \<notin> set w \<and>
        (t, cs') \<in> set (ms ?R2 (u, cs(1 \<mapsto> w)))"
      by (simp only: mem_Cat_Grp_Star not_canon_iff)
    then obtain label u2 where u2: "u1 = label @ u2" "CHR '']'' \<notin> set label"
      and m2: "(t, cs') \<in> set (ms ?R2 (u2, cs(1 \<mapsto> label)))"
      by blast
    from m2 have "\<exists>x u. u2 = x # u \<and> x = CHR '']'' \<and>
        (t, cs') \<in> set (ms ?R3 (u, cs(1 \<mapsto> label)))"
      by (simp only: mem_Cat_Lit canonicalize_punct)
    then obtain u3 where u3: "u2 = CHR '']'' # u3"
      and m3: "(t, cs') \<in> set (ms ?R3 (u3, cs(1 \<mapsto> label)))"
      by blast
    from m3 have "\<exists>x u. u3 = x # u \<and> x = CHR ''('' \<and>
        (t, cs') \<in> set (ms ?R4 (u, cs(1 \<mapsto> label)))"
      by (simp only: mem_Cat_Lit canonicalize_punct)
    then obtain u4 where u4: "u3 = CHR ''('' # u4"
      and m4: "(t, cs') \<in> set (ms ?R4 (u4, cs(1 \<mapsto> label)))"
      by blast
    from m4 have "\<exists>w v e u. u4 = w @ v @ u \<and> w \<noteq> [] \<and> CHR '')'' \<notin> set w \<and>
        e \<in> set audioExtensions \<and> ci_eq v e \<and>
        (t, cs') \<in> set (ms (Lit CHR '')'') (u, cs(1 \<mapsto> label, 2 \<mapsto> w @ v)))"
      by (simp only: mem_Cat_Grp_path not_canon_iff)
    then obtain w v e u5 where u5: "u4 = w @ v @ u5" "w \<noteq> []" "CHR '')'' \<notin> set w"
      "e \<in> set audioExtensions" "ci_eq v e"
      and m5: "(t, cs') \<in> set (ms (Lit CHR '')'') (u5, cs(1 \<mapsto> label, 2 \<mapsto> w @ v)))"
      by blast
    from m5 have "cs' = cs(1 \<mapsto> label, 2 \<mapsto> w @ v) \<and> (\<exists>x. u5 = x # t \<and> x = CHR '')'')"
      by (simp only: mem_Lit canonicalize_punct)
    then have c: "cs' = cs(1 \<mapsto> label, 2 \<mapsto> w @ v)" and t: "u5 = CHR '')'' # t"
      by blast+
    from ci_eq_ext_chars[OF u5(4,5)] u5(3) have np: "CHR '')'' \<notin> set (w @ v)" by simp
    from u5 have "endsWithAudioExtension (w @ v)"
      unfolding endsWithAudioExtension_iff by blast
    moreover from u1 u2 u3 u4 u5(1) t
    have "s = CHR ''['' # label @ CHR '']'' # CHR ''('' # (w @ v) @ CHR '')'' # t" by simp
    ultimately show ?R using u2(2) np c by blast
  next
    assume ?R
    then obtain label p where *: "s = CHR ''['' # label @ CHR '']'' # CHR ''('' # p @ CHR '')'' # t"
      "CHR '']'' \<notin> set label" "CHR '')'' \<notin> set p" "endsWithAudioExtension p"
      "cs' = cs(1 \<mapsto> label, 2 \<mapsto> p)"
      by blast
    from *(4) obtain w v e where p: "p = w @ v" "w \<noteq> []" "e \<in> set audioExtensions" "ci_eq v e"
      unfolding endsWithAudioExtension_iff by blast
    have "cs' = cs(1 \<mapsto> label, 2 \<mapsto> w @ v) \<and> (\<exists>x. CHR '')'' # t = x # t \<and> x = CHR '')'')"
      using *(5) p(1) by simp
    then have m5: "(t, cs') \<in> set (ms (Lit CHR '')'') (CHR '')'' # t, cs(1 \<mapsto> label, 2 \<mapsto> w @ v)))"
      by (simp only: mem_Lit canonicalize_punct)
    from p *(3) have "p @ CHR '')'' # t = w @ v @ CHR '')'' # t \<and> w \<noteq> [] \<and> CHR '')'' \<notin> set w \<and>
        e \<in> set audioExtensions \<and> ci_eq v e" by simp
    with m5 have "\<exists>w v e u. p @ CHR '')'' # t = w @ v @ u \<and> w \<noteq> [] \<and> CHR '')'' \<notin> set w \<and>
        e \<in> set audioExtensions \<and> ci_eq v e \<and>
        (t, cs') \<in> set (ms (Lit CHR '')'') (u, cs(1 \<mapsto> label, 2 \<mapsto> w @ v)))"
      by blast
    then have m4: "(t, cs') \<in> set (ms ?R4 (p @ CHR '')'' # t, cs(1 \<mapsto> label)))"
      by (simp only: mem_Cat_Grp_path not_canon_iff)
    then have "\<exists>x u. CHR ''('' # p @ CHR '')'' # t = x # u \<and> x = CHR ''('' \<and>
        (t, cs') \<in> set (ms ?R4 (u, cs(1 \<mapsto> label)))"
      by blast
    then have m3: "(t, cs') \<in> set (ms ?R3 (CHR ''('' # p @ CHR '')'' # t, cs(1 \<mapsto> label)))"
      by (simp only: mem_Cat_Lit canonicalize_punct)
    then have "\<exists>x u. CHR '']'' # CHR ''('' # p @ CHR '')'' # t = x # u \<and> x = CHR '']'' \<and>
        (t, cs') \<in> set (ms ?R3 (u, cs(1 \<mapsto> label)))"
      by blast
    then have m2: "(t, cs') \<in> set (ms ?R2 (CHR '']'' # CHR ''('' # p @ CHR '')'' # t, cs(1 \<mapsto> label)))"
      by (simp only: mem_Cat_Lit canonicalize_punct)
    with *(2) have "\<exists>w u. label @ CHR '']'' # CHR ''('' # p @ CHR '')'' # t = w @ u \<and>
        CHR '']'' \<notin> set w \<and> (t, cs') \<in> set (ms ?R2 (u, cs(1 \<mapsto> w)))"
      by blast
    then have m1: "(t, cs') \<in> set (ms ?R1 (label @ CHR '']'' # CHR ''('' # p @ CHR '')'' # t, cs))"
      by (simp only: mem_Cat_Grp_Star not_canon_iff)
    with *(1) have "\<exists>x u. s = x # u \<and> x = CHR ''['' \<and> (t, cs') \<in> set (ms ?R1 (u, cs))"
      by blast
    then show ?L by (simp only: md mem_Cat_Lit canonicalize_punct)
  qed
qed

lemma mem_wikiLink:
  "(t, cs') \<in> set (ms wikiLink (s, cs)) \<longleftrightarrow>
     (\<exists>p. s = CHR ''['' # CHR ''['' # p @ CHR '']'' # CHR '']'' # t \<and>
        CHR '']'' \<notin> set p \<and> endsWithAudioExtension p \<and> cs' = cs(3 \<mapsto> p))"
  (is "?L \<longleftrightarrow> ?R")
proof -
  let ?R3 = "Cat (Lit CHR '']'') (Lit CHR '']'')"
  let ?R2 = "Cat (Grp 3 (Cat (Plus (NotLit CHR '']'')) extPattern)) ?R3"
  let ?R1 = "Cat (Lit CHR ''['') ?R2"
  have wiki: "wikiLink = Cat (Lit CHR ''['') ?R1" by (simp add: wikiLink_def)
  show ?thesis
  proof
    assume ?L
    then have "\<exists>x u. s = x # u \<and> x = CHR ''['' \<and> (t, cs') \<in> set (ms ?R1 (u, cs))"
      by (simp only: wiki mem_Cat_Lit canonicalize_punct)
    then obtain u1 where u1: "s = CHR ''['' # u1" and m1: "(t, cs') \<in> set (ms ?R1 (u1, cs))"
      by blast
    from m1 have "\<exists>x u. u1 = x # u \<and> x = CHR ''['' \<and> (t, cs') \<in> set (ms ?R2 (u, cs))"
      by (simp only: mem_Cat_Lit canonicalize_punct)
    then obtain u2 where u2: "u1 = CHR ''['' # u2" and m2: "(t, cs') \<in> set (ms ?R2 (u2, cs))"
      by blast
    from m2 have "\<exists>w v e u. u2 = w @ v @ u \<and> w \<noteq> [] \<and> CHR '']'' \<notin> set w \<and>
        e \<in> set audioExtensions \<and> ci_eq v e \<and>
        (t, cs') \<in> set (ms ?R3 (u, cs(3 \<mapsto> w @ v)))"
      by (simp only: mem_Cat_Grp_path not_canon_iff)
    then obtain w v e u3 where u3: "u2 = w @ v @ u3" "w \<noteq> []" "CHR '']'' \<notin> set w"
      "e \<in> set audioExtensions" "ci_eq v e"
      and m3: "(t, cs') \<in> set (ms ?R3 (u3, cs(3 \<mapsto> w @ v)))"
      by blast
    from m3 have "\<exists>x u. u3 = x # u \<and> x = CHR '']'' \<and>
        (t, cs') \<in> set (ms (Lit CHR '']'') (u, cs(3 \<mapsto> w @ v)))"
      by (simp only: mem_Cat_Lit canonicalize_punct)
    then obtain u4 where u4: "u3 = CHR '']'' # u4"
      and m4: "(t, cs') \<in> set (ms (Lit CHR '']'') (u4, cs(3 \<mapsto> w @ v)))"
      by blast
    from m4 have "cs' = cs(3 \<mapsto> w @ v) \<and> (\<exists>x. u4 = x # t \<and> x = CHR '']'')"
      by (simp only: mem_Lit canonicalize_punct)
    then have c: "cs' = cs(3 \<mapsto> w @ v)" and t: "u4 = CHR '']'' # t"
      by blast+
    from ci_eq_ext_chars[OF u3(4,5)] u3(3) have np: "CHR '']'' \<notin> set (w @ v)" by simp
    from u3 have "endsWithAudioExtension (w @ v)"
      unfolding endsWithAudioExtension_iff by blast
    moreover from u1 u2 u3(1) u4 t
    have "s = CHR ''['' # CHR ''['' # (w @ v) @ CHR '']'' # CHR '']'' # t" by simp
    ultimately show ?R using np c by blast
  next
    assume ?R
    then obtain p where *: "s = CHR ''['' # CHR ''['' # p @ CHR '']'' # CHR '']'' # t"
      "CHR '']'' \<notin> set p" "endsWithAudioExtension p" "cs' = cs(3 \<mapsto> p)"
      by blast
    from *(3) obtain w v e where p: "p = w @ v" "w \<noteq> []" "e \<in> set audioExtensions" "ci_eq v e"
      unfolding endsWithAudioExtension_iff by blast
    have "cs' = cs(3 \<mapsto> w @ v) \<and> (\<exists>x. CHR '']'' # t = x # t \<and> x = CHR '']'')"
      using *(4) p(1) by simp
    then have m4: "(t, cs') \<in> set (ms (Lit CHR '']'') (CHR '']'' # t, cs(3 \<mapsto> w @ v)))"
      by (simp only: mem_Lit canonicalize_punct)
    then have "\<exists>x u. CHR '']'' # CHR '']'' # t = x # u \<and> x = CHR '']'' \<and>
        (t, cs') \<in> set (ms (Lit CHR '']'') (u, cs(3 \<mapsto> w @ v)))"
      by blast
    then have m3: "(t, cs') \<in> set (ms ?R3 (CHR '']'' # CHR '']'' # t, cs(3 \<mapsto> w @ v)))"
      by (simp only: mem_Cat_Lit canonicalize_punct)
    from p *(2) have "p @ CHR '']'' # CHR '']'' # t = w @ v @ CHR '']'' # CHR '']'' # t \<and> w \<noteq> [] \<and>
        CHR '']'' \<notin> set w \<and> e \<in> set audioExtensions \<and> ci_eq v e" by simp
    with m3 have "\<exists>w v e u. p @ CHR '']'' # CHR '']'' # t = w @ v @ u \<and> w \<noteq> [] \<and> CHR '']'' \<notin> set w \<and>
        e \<in> set audioExtensions \<and> ci_eq v e \<and>
        (t, cs') \<in> set (ms ?R3 (u, cs(3 \<mapsto> w @ v)))"
      by blast
    then have m2: "(t, cs') \<in> set (ms ?R2 (p @ CHR '']'' # CHR '']'' # t, cs))"
      by (simp only: mem_Cat_Grp_path not_canon_iff)
    then have "\<exists>x u. CHR ''['' # p @ CHR '']'' # CHR '']'' # t = x # u \<and> x = CHR ''['' \<and>
        (t, cs') \<in> set (ms ?R2 (u, cs))"
      by blast
    then have m1: "(t, cs') \<in> set (ms ?R1 (CHR ''['' # p @ CHR '']'' # CHR '']'' # t, cs))"
      by (simp only: mem_Cat_Lit canonicalize_punct)
    with *(1) have "\<exists>x u. s = x # u \<and> x = CHR ''['' \<and> (t, cs') \<in> set (ms ?R1 (u, cs))"
      by blast
    then show ?L by (simp only: wiki mem_Cat_Lit canonicalize_punct)
  qed
qed

lemma first_occurrence_unique:
  assumes "x \<notin> set xs" "x \<notin> set xs'" "xs @ x # ys = xs' @ x # ys'"
  shows "xs = xs' \<and> ys = ys'"
  using assms
proof (induction xs arbitrary: xs')
  case Nil
  then show ?case by (cases xs') auto
next
  case (Cons a xs)
  then show ?case by (cases xs') auto
qed

lemma mdLink_unique:
  assumes "st1 \<in> set (ms mdLink (s, cs))" "st2 \<in> set (ms mdLink (s, cs))"
  shows "st1 = st2"
proof -
  obtain t1 c1 where st1: "st1 = (t1, c1)" by (cases st1)
  obtain t2 c2 where st2: "st2 = (t2, c2)" by (cases st2)
  note st = st1 st2
  from assms(1) st have "(t1, c1) \<in> set (ms mdLink (s, cs))" by simp
  then have "\<exists>label p. s = CHR ''['' # label @ CHR '']'' # CHR ''('' # p @ CHR '')'' # t1 \<and>
        CHR '']'' \<notin> set label \<and> CHR '')'' \<notin> set p \<and> endsWithAudioExtension p \<and>
        c1 = cs(1 \<mapsto> label, 2 \<mapsto> p)"
    by (simp only: mem_mdLink)
  then obtain l1 p1 where 1:
    "s = CHR ''['' # l1 @ CHR '']'' # CHR ''('' # p1 @ CHR '')'' # t1"
    "CHR '']'' \<notin> set l1" "CHR '')'' \<notin> set p1" "c1 = cs(1 \<mapsto> l1, 2 \<mapsto> p1)"
    by blast
  from assms(2) st have "(t2, c2) \<in> set (ms mdLink (s, cs))" by simp
  then have "\<exists>label p. s = CHR ''['' # label @ CHR '']'' # CHR ''('' # p @ CHR '')'' # t2 \<and>
        CHR '']'' \<notin> set label \<and> CHR '')'' \<notin> set p \<and> endsWithAudioExtension p \<and>
        c2 = cs(1 \<mapsto> label, 2 \<mapsto> p)"
    by (simp only: mem_mdLink)
  then obtain l2 p2 where 2:
    "s = CHR ''['' # l2 @ CHR '']'' # CHR ''('' # p2 @ CHR '')'' # t2"
    "CHR '']'' \<notin> set l2" "CHR '')'' \<notin> set p2" "c2 = cs(1 \<mapsto> l2, 2 \<mapsto> p2)"
    by blast
  from 1(1) 2(1) have "l1 @ CHR '']'' # (CHR ''('' # p1 @ CHR '')'' # t1) =
                       l2 @ CHR '']'' # (CHR ''('' # p2 @ CHR '')'' # t2)" by simp
  from first_occurrence_unique[OF 1(2) 2(2) this]
  have l: "l1 = l2" and "p1 @ CHR '')'' # t1 = p2 @ CHR '')'' # t2" by simp_all
  from first_occurrence_unique[OF 1(3) 2(3) this(2)] have "p1 = p2" "t1 = t2" by simp_all
  with l 1(4) 2(4) st show ?thesis by simp
qed

lemma wikiLink_unique:
  assumes "st1 \<in> set (ms wikiLink (s, cs))" "st2 \<in> set (ms wikiLink (s, cs))"
  shows "st1 = st2"
proof -
  obtain t1 c1 where st1: "st1 = (t1, c1)" by (cases st1)
  obtain t2 c2 where st2: "st2 = (t2, c2)" by (cases st2)
  note st = st1 st2
  from assms(1) st have "(t1, c1) \<in> set (ms wikiLink (s, cs))" by simp
  then have "\<exists>p. s = CHR ''['' # CHR ''['' # p @ CHR '']'' # CHR '']'' # t1 \<and>
        CHR '']'' \<notin> set p \<and> endsWithAudioExtension p \<and> c1 = cs(3 \<mapsto> p)"
    by (simp only: mem_wikiLink)
  then obtain p1 where 1:
    "s = CHR ''['' # CHR ''['' # p1 @ CHR '']'' # CHR '']'' # t1"
    "CHR '']'' \<notin> set p1" "c1 = cs(3 \<mapsto> p1)"
    by blast
  from assms(2) st have "(t2, c2) \<in> set (ms wikiLink (s, cs))" by simp
  then have "\<exists>p. s = CHR ''['' # CHR ''['' # p @ CHR '']'' # CHR '']'' # t2 \<and>
        CHR '']'' \<notin> set p \<and> endsWithAudioExtension p \<and> c2 = cs(3 \<mapsto> p)"
    by (simp only: mem_wikiLink)
  then obtain p2 where 2:
    "s = CHR ''['' # CHR ''['' # p2 @ CHR '']'' # CHR '']'' # t2"
    "CHR '']'' \<notin> set p2" "c2 = cs(3 \<mapsto> p2)"
    by blast
  from 1(1) 2(1) have "p1 @ CHR '']'' # (CHR '']'' # t1) = p2 @ CHR '']'' # (CHR '']'' # t2)" by simp
  from first_occurrence_unique[OF 1(2) 2(2) this] have "p1 = p2" "t1 = t2" by simp_all
  with 1(3) 2(3) st show ?thesis by simp
qed

lemma hd_unique:
  assumes "x \<in> set xs" "\<And>y. y \<in> set xs \<Longrightarrow> y = x"
  shows "\<exists>ys. xs = x # ys"
proof (cases xs)
  case Nil
  with assms(1) show ?thesis by simp
next
  case (Cons a as)
  then have "a \<in> set xs" by simp
  from assms(2)[OF this] Cons show ?thesis by simp
qed

lemma first_match_md:
  assumes "st \<in> set (ms mdLink (s, \<lambda>n. None))"
  shows "first_match linkRegex s = Some st"
proof -
  have "\<exists>ys. ms mdLink (s, \<lambda>n. None) = st # ys"
  proof (rule hd_unique[OF assms])
    fix y
    assume "y \<in> set (ms mdLink (s, \<lambda>n. None))"
    then show "y = st" using assms by (rule mdLink_unique)
  qed
  then obtain ys where "ms mdLink (s, \<lambda>n. None) = st # ys" ..
  then show ?thesis by (simp add: first_match_def linkRegex_def)
qed

lemma first_match_wiki:
  assumes "ms mdLink (s, \<lambda>n. None) = []" "st \<in> set (ms wikiLink (s, \<lambda>n. None))"
  shows "first_match linkRegex s = Some st"
proof -
  have "\<exists>ys. ms wikiLink (s, \<lambda>n. None) = st # ys"
  proof (rule hd_unique[OF assms(2)])
    fix y
    assume "y \<in> set (ms wikiLink (s, \<lambda>n. None))"
    then show "y = st" using assms(2) by (rule wikiLink_unique)
  qed
  then obtain ys where "ms wikiLink (s, \<lambda>n. None) = st # ys" ..
  with assms(1) show ?thesis by (simp add: first_match_def linkRegex_def)
qed

lemma first_match_linkRegex_cases:
  assumes "first_match linkRegex s = Some st"
  shows "st \<in> set (ms mdLink (s, \<lambda>n. None)) \<or> st \<in> set (ms wikiLink (s, \<lambda>n. None))"
proof -
  from first_match_Some_mem[OF assms] show ?thesis by (simp add: linkRegex_def)
qed

lemma mdLink_starts_with_bracket:
  assumes "st \<in> set (ms mdLink (s, cs))"
  shows "\<exists>u. s = CHR ''['' # u"
proof -
  obtain t c where "st = (t, c)" by (cases st)
  with assms have "(t, c) \<in> set (ms mdLink (s, cs))" by simp
  then have "\<exists>label p. s = CHR ''['' # label @ CHR '']'' # CHR ''('' # p @ CHR '')'' # t \<and>
        CHR '']'' \<notin> set label \<and> CHR '')'' \<notin> set p \<and> endsWithAudioExtension p \<and>
        c = cs(1 \<mapsto> label, 2 \<mapsto> p)"
    by (simp only: mem_mdLink)
  then show ?thesis by blast
qed

lemma wikiLink_starts_with_bracket:
  assumes "st \<in> set (ms wikiLink (s, cs))"
  shows "\<exists>u. s = CHR ''['' # u"
proof -
  obtain t c where "st = (t, c)" by (cases st)
  with assms have "(t, c) \<in> set (ms wikiLink (s, cs))" by simp
  then have "\<exists>p. s = CHR ''['' # CHR ''['' # p @ CHR '']'' # CHR '']'' # t \<and>
        CHR '']'' \<notin> set p \<and> endsWithAudioExtension p \<and> c = cs(3 \<mapsto> p)"
    by (simp only: mem_wikiLink)
  then show ?thesis by blast
qed

lemma first_match_no_bracket:
  assumes "\<And>u. s \<noteq> CHR ''['' # u"
  shows "first_match linkRegex s = None"
proof -
  have "ms mdLink (s, \<lambda>n. None) = []"
  proof (cases "ms mdLink (s, \<lambda>n. None)")
    case (Cons st sts)
    then have "st \<in> set (ms mdLink (s, \<lambda>n. None))" by simp
    from mdLink_starts_with_bracket[OF this] assms show ?thesis by blast
  qed
  moreover have "ms wikiLink (s, \<lambda>n. None) = []"
  proof (cases "ms wikiLink (s, \<lambda>n. None)")
    case (Cons st sts)
    then have "st \<in> set (ms wikiLink (s, \<lambda>n. None))" by simp
    from wikiLink_starts_with_bracket[OF this] assms show ?thesis by blast
  qed
  ultimately show ?thesis by (simp add: first_match_def linkRegex_def)
qed

text \<open>What one round of the loop pushes, and a match moved by an offset.\<close>

definition emit :: "RegExpExecArray \<Rightarrow> nat \<Rightarrow> LinkMatch list" where
  "emit m e =
     (case or_else (groups m 2) (groups m 3) of
        None \<Rightarrow> []
      | Some t \<Rightarrow> if t = [] then [] else [\<lparr>linkText = t, startPos = index m, endPos = e\<rparr>])"

definition shift :: "nat \<Rightarrow> LinkMatch \<Rightarrow> LinkMatch" where
  "shift i m = m\<lparr>startPos := startPos m + i, endPos := endPos m + i\<rparr>"

lemma exec_past: "length S < i \<Longrightarrow> regExpBuiltinExec R S i = (None, 0)"
  by (simp add: regExpBuiltinExec.simps[of R S i])

lemma exec_miss:
  assumes "first_match R (drop i S) = None"
  shows "regExpBuiltinExec R S i = regExpBuiltinExec R S (Suc i)"
proof (cases "length S < i")
  case True
  then show ?thesis by (simp add: exec_past)
next
  case False
  with assms show ?thesis by (simp add: regExpBuiltinExec.simps[of R S i])
qed

lemma exec_hit:
  assumes "i \<le> length S" "first_match R (drop i S) = Some (rest, cap)"
  shows "regExpBuiltinExec R S i = (Some \<lparr>index = i, groups = cap\<rparr>, length S - length rest)"
  using assms by (simp add: regExpBuiltinExec.simps[of R S i])

lemma loop_stop:
  assumes "regExpBuiltinExec linkRegex S i = (None, e)"
  shows "findAudioLinkMatches_loop S i acc = acc"
  using assms by (simp add: findAudioLinkMatches_loop.simps[of S i acc])

lemma loop_step:
  assumes "regExpBuiltinExec linkRegex S i = (Some m, e)"
  shows "findAudioLinkMatches_loop S i acc = findAudioLinkMatches_loop S e (acc @ emit m e)"
  using assms
  by (simp add: findAudioLinkMatches_loop.simps[of S i acc] emit_def split: option.splits)

lemma loop_acc:
  "findAudioLinkMatches_loop S i acc = acc @ findAudioLinkMatches_loop S i []"
proof (induction "Suc (length S) - i" arbitrary: i acc rule: less_induct)
  case less
  obtain r e where ex: "regExpBuiltinExec linkRegex S i = (r, e)"
    by (cases "regExpBuiltinExec linkRegex S i")
  show ?case
  proof (cases r)
    case None
    with ex show ?thesis by (simp add: loop_stop)
  next
    case (Some m)
    with ex have ex': "regExpBuiltinExec linkRegex S i = (Some m, e)" by simp
    from exec_progress[OF linkRegex_shorter ex']
    have dec: "Suc (length S) - e < Suc (length S) - i" by linarith
    have "findAudioLinkMatches_loop S i acc = findAudioLinkMatches_loop S e (acc @ emit m e)"
      by (rule loop_step[OF ex'])
    also have "\<dots> = (acc @ emit m e) @ findAudioLinkMatches_loop S e []"
      by (rule less.hyps[OF dec])
    finally have 1: "findAudioLinkMatches_loop S i acc =
                       acc @ emit m e @ findAudioLinkMatches_loop S e []" by simp
    have "findAudioLinkMatches_loop S i [] = findAudioLinkMatches_loop S e ([] @ emit m e)"
      by (rule loop_step[OF ex'])
    also have "\<dots> = ([] @ emit m e) @ findAudioLinkMatches_loop S e []"
      by (rule less.hyps[OF dec])
    finally have 2: "findAudioLinkMatches_loop S i [] = emit m e @ findAudioLinkMatches_loop S e []"
      by simp
    from 1 2 show ?thesis by simp
  qed
qed

lemma scan_step:
  assumes "regExpBuiltinExec linkRegex S i = (Some m, e)"
  shows "findAudioLinkMatches_loop S i [] = emit m e @ findAudioLinkMatches_loop S e []"
proof -
  have "findAudioLinkMatches_loop S i [] = findAudioLinkMatches_loop S e ([] @ emit m e)"
    by (rule loop_step[OF assms])
  also have "\<dots> = ([] @ emit m e) @ findAudioLinkMatches_loop S e []"
    by (rule loop_acc)
  finally show ?thesis by simp
qed

lemma exec_drop:
  assumes "i \<le> length S"
  shows "regExpBuiltinExec R S (i + j) =
           (case regExpBuiltinExec R (drop i S) j of
              (None, e) \<Rightarrow> (None, 0)
            | (Some m, e) \<Rightarrow> (Some (m\<lparr>index := index m + i\<rparr>), e + i))"
proof (induction "Suc (length S) - (i + j)" arbitrary: j rule: less_induct)
  case less
  show ?case
  proof (cases "length (drop i S) < j")
    case True
    with assms have "length S < i + j" by simp
    with True show ?thesis by (simp add: exec_past)
  next
    case False
    with assms have le: "i + j \<le> length S" "j \<le> length (drop i S)" by simp_all
    have dd: "drop j (drop i S) = drop (i + j) S" by (simp add: add.commute)
    show ?thesis
    proof (cases "first_match R (drop (i + j) S)")
      case None
      from le have "Suc (length S) - (i + Suc j) < Suc (length S) - (i + j)" by simp
      from less.hyps[OF this] exec_miss[OF None] exec_miss[of R j "drop i S"] None dd
      show ?thesis by simp
    next
      case (Some st)
      obtain rest cap where st: "st = (rest, cap)" by (cases st)
      from first_match_Some_mem[OF Some] st
      have "(rest, cap) \<in> set (ms R (drop (i + j) S, \<lambda>n. None))" by simp
      from ms_length_le[OF this] have "length rest \<le> length S - (i + j)" by simp
      with le have "length S - length rest = length (drop i S) - length rest + i" by simp
      with exec_hit[OF le(1), of R rest cap] exec_hit[OF le(2), of R rest cap] Some st dd
      show ?thesis by simp
    qed
  qed
qed


lemma emit_shift:
  "emit (m\<lparr>index := index m + i\<rparr>) (e + i) = map (shift i) (emit m e)"
  by (simp add: emit_def shift_def split: option.splits)

lemma loop_drop:
  assumes "i \<le> length S"
  shows "findAudioLinkMatches_loop S (i + j) [] =
           map (shift i) (findAudioLinkMatches_loop (drop i S) j [])"
proof (induction "Suc (length S) - (i + j)" arbitrary: j rule: less_induct)
  case less
  obtain r e where ex: "regExpBuiltinExec linkRegex (drop i S) j = (r, e)"
    by (cases "regExpBuiltinExec linkRegex (drop i S) j")
  show ?case
  proof (cases r)
    case None
    with ex exec_drop[OF assms, of linkRegex j]
    have "regExpBuiltinExec linkRegex S (i + j) = (None, 0)" by simp
    from loop_stop[OF this] loop_stop[OF ex[unfolded None]] show ?thesis by simp
  next
    case (Some m)
    with ex have ex1: "regExpBuiltinExec linkRegex (drop i S) j = (Some m, e)" by simp
    with exec_drop[OF assms, of linkRegex j]
    have ex2: "regExpBuiltinExec linkRegex S (i + j) = (Some (m\<lparr>index := index m + i\<rparr>), e + i)"
      by simp
    from exec_progress[OF linkRegex_shorter ex1] assms
    have "Suc (length S) - (i + e) < Suc (length S) - (i + j)" by auto
    from less.hyps[OF this]
    have IH: "findAudioLinkMatches_loop S (e + i) [] =
                map (shift i) (findAudioLinkMatches_loop (drop i S) e [])"
      by (simp add: add.commute)
    from scan_step[OF ex2] scan_step[OF ex1] IH emit_shift[of m i e]
    show ?thesis by simp
  qed
qed

lemma loop_skip_to:
  assumes "\<And>j. i \<le> j \<Longrightarrow> j < k \<Longrightarrow> first_match linkRegex (drop j S) = None" "i \<le> k"
  shows "findAudioLinkMatches_loop S i acc = findAudioLinkMatches_loop S k acc"
  using assms
proof (induction "k - i" arbitrary: i)
  case 0
  then show ?case by simp
next
  case (Suc n)
  then have lt: "i < k" by simp
  from Suc.prems(1)[OF le_refl lt] have "first_match linkRegex (drop i S) = None" .
  from exec_miss[OF this]
  have "findAudioLinkMatches_loop S i acc = findAudioLinkMatches_loop S (Suc i) acc"
    by (simp add: findAudioLinkMatches_loop.simps[of S i acc]
                  findAudioLinkMatches_loop.simps[of S "Suc i" acc])
  also have "\<dots> = findAudioLinkMatches_loop S k acc"
  proof (rule Suc.hyps(1))
    from Suc.hyps(2) show "n = k - Suc i" by simp
    from lt show "Suc i \<le> k" by simp
    fix j assume "Suc i \<le> j" "j < k"
    then show "first_match linkRegex (drop j S) = None" using Suc.prems(1)[of j] by simp
  qed
  finally show ?case .
qed

lemma scan_skip_prefix:
  assumes "CHR ''['' \<notin> set pre"
  shows "findAudioLinkMatches (pre @ rest) = map (shift (length pre)) (findAudioLinkMatches rest)"
proof -
  have none: "first_match linkRegex (drop j (pre @ rest)) = None" if "j < length pre" for j
  proof (rule first_match_no_bracket)
    fix u
    from that have "drop j (pre @ rest) = pre ! j # (drop (Suc j) pre @ rest)"
      by (simp add: Cons_nth_drop_Suc)
    moreover from that assms have "pre ! j \<noteq> CHR ''[''" by (metis nth_mem)
    ultimately show "drop j (pre @ rest) \<noteq> CHR ''['' # u" by simp
  qed
  have "findAudioLinkMatches_loop (pre @ rest) 0 [] =
        findAudioLinkMatches_loop (pre @ rest) (length pre) []"
  proof (rule loop_skip_to)
    fix j assume "j < length pre"
    then show "first_match linkRegex (drop j (pre @ rest)) = None" by (rule none)
  qed simp
  also have "\<dots> = findAudioLinkMatches_loop (pre @ rest) (length pre + 0) []" by simp
  also have "\<dots> = map (shift (length pre))
                     (findAudioLinkMatches_loop (drop (length pre) (pre @ rest)) 0 [])"
    by (rule loop_drop) simp
  finally show ?thesis by (simp add: findAudioLinkMatches_def)
qed

lemma scan_hit:
  assumes "first_match linkRegex s = Some (rest, cap)"
  shows "findAudioLinkMatches s =
           emit \<lparr>index = 0, groups = cap\<rparr> (length s - length rest)
           @ map (shift (length s - length rest)) (findAudioLinkMatches rest)"
proof -
  from ms_suffix[OF first_match_Some_mem[OF assms]] obtain w where w: "s = w @ rest" by auto
  from assms have "first_match linkRegex (drop 0 s) = Some (rest, cap)" by simp
  from exec_hit[OF _ this]
  have ex: "regExpBuiltinExec linkRegex s 0 = (Some \<lparr>index = 0, groups = cap\<rparr>, length s - length rest)"
    by simp
  from w have e: "length s - length rest = length w" "drop (length w) s = rest" by simp_all
  have "findAudioLinkMatches_loop s (length w + 0) [] =
          map (shift (length w)) (findAudioLinkMatches_loop (drop (length w) s) 0 [])"
    by (rule loop_drop) (simp add: w)
  with scan_step[OF ex] e show ?thesis by (simp add: findAudioLinkMatches_def)
qed

lemma scan_Nil: "findAudioLinkMatches [] = []"
proof -
  have "first_match linkRegex (drop 0 []) = None" by (rule first_match_no_bracket) simp
  from exec_miss[OF this] have "regExpBuiltinExec linkRegex [] 0 = (None, 0)"
    by (simp add: exec_past)
  from loop_stop[OF this] show ?thesis by (simp add: findAudioLinkMatches_def)
qed

lemma emit_capture:
  assumes "or_else (cap 2) (cap 3) = Some p" "p \<noteq> []"
  shows "emit \<lparr>index = i, groups = cap\<rparr> e = [\<lparr>linkText = p, startPos = i, endPos = e\<rparr>]"
  using assms by (simp add: emit_def)

lemma scan_md_reference:
  assumes "CHR '']'' \<notin> set label" "CHR '')'' \<notin> set p" "endsWithAudioExtension p"
  shows "findAudioLinkMatches (CHR ''['' # label @ CHR '']'' # CHR ''('' # p @ CHR '')'' # post) =
           \<lparr>linkText = p, startPos = 0, endPos = length label + length p + 4\<rparr>
           # map (shift (length label + length p + 4)) (findAudioLinkMatches post)"
proof -
  let ?s = "CHR ''['' # label @ CHR '']'' # CHR ''('' # p @ CHR '')'' # post"
  let ?cap = "(\<lambda>n. None)(1 \<mapsto> label, 2 \<mapsto> p)"
  from assms have "\<exists>l q. ?s = CHR ''['' # l @ CHR '']'' # CHR ''('' # q @ CHR '')'' # post \<and>
        CHR '']'' \<notin> set l \<and> CHR '')'' \<notin> set q \<and> endsWithAudioExtension q \<and>
        ?cap = (\<lambda>n. None)(1 \<mapsto> l, 2 \<mapsto> q)"
    by blast
  then have "(post, ?cap) \<in> set (ms mdLink (?s, \<lambda>n. None))"
    by (simp only: mem_mdLink)
  from first_match_md[OF this] have fm: "first_match linkRegex ?s = Some (post, ?cap)" .
  from assms(3) have "p \<noteq> []" by (auto simp: endsWithAudioExtension_iff)
  then have "or_else (?cap 2) (?cap 3) = Some p" by (simp add: or_else_def falsy_def)
  note em = emit_capture[OF this \<open>p \<noteq> []\<close>, of 0 "length ?s - length post"]
  have len: "length ?s - length post = length label + length p + 4" by simp
  have "findAudioLinkMatches ?s =
          emit \<lparr>index = 0, groups = ?cap\<rparr> (length ?s - length post)
          @ map (shift (length ?s - length post)) (findAudioLinkMatches post)"
    by (rule scan_hit[OF fm])
  then have "findAudioLinkMatches ?s =
          [\<lparr>linkText = p, startPos = 0, endPos = length ?s - length post\<rparr>]
          @ map (shift (length ?s - length post)) (findAudioLinkMatches post)"
    by (simp only: em)
  then show ?thesis unfolding len by simp
qed

lemma scan_wiki_reference:
  assumes "CHR '']'' \<notin> set p" "endsWithAudioExtension p"
  shows "findAudioLinkMatches (CHR ''['' # CHR ''['' # p @ CHR '']'' # CHR '']'' # post) =
           \<lparr>linkText = p, startPos = 0, endPos = length p + 4\<rparr>
           # map (shift (length p + 4)) (findAudioLinkMatches post)"
proof -
  let ?s = "CHR ''['' # CHR ''['' # p @ CHR '']'' # CHR '']'' # post"
  let ?cap = "(\<lambda>n. None)(3 \<mapsto> p)"
  have no_md: "ms mdLink (?s, \<lambda>n. None) = []"
  proof (cases "ms mdLink (?s, \<lambda>n. None)")
    case (Cons st sts)
    obtain t c where "st = (t, c)" by (cases st)
    with Cons have "(t, c) \<in> set (ms mdLink (?s, \<lambda>n. None))" by simp
    then have "\<exists>l q. ?s = CHR ''['' # l @ CHR '']'' # CHR ''('' # q @ CHR '')'' # t \<and>
        CHR '']'' \<notin> set l \<and> CHR '')'' \<notin> set q \<and> endsWithAudioExtension q \<and>
        c = (\<lambda>n. None)(1 \<mapsto> l, 2 \<mapsto> q)"
      by (simp only: mem_mdLink)
    then obtain l q where l: "?s = CHR ''['' # l @ CHR '']'' # CHR ''('' # q @ CHR '')'' # t"
      "CHR '']'' \<notin> set l" by blast
    from l(1) have "(CHR ''['' # p) @ CHR '']'' # (CHR '']'' # post) =
                    l @ CHR '']'' # (CHR ''('' # q @ CHR '')'' # t)" by simp
    moreover from assms(1) have "CHR '']'' \<notin> set (CHR ''['' # p)" by simp
    ultimately have "CHR ''['' # p = l \<and> CHR '']'' # post = CHR ''('' # q @ CHR '')'' # t"
      using l(2) by (rule first_occurrence_unique[rotated 2])
    then show ?thesis by simp
  qed
  from assms have "\<exists>q. ?s = CHR ''['' # CHR ''['' # q @ CHR '']'' # CHR '']'' # post \<and>
        CHR '']'' \<notin> set q \<and> endsWithAudioExtension q \<and> ?cap = (\<lambda>n. None)(3 \<mapsto> q)"
    by blast
  then have "(post, ?cap) \<in> set (ms wikiLink (?s, \<lambda>n. None))"
    by (simp only: mem_wikiLink)
  from first_match_wiki[OF no_md this] have fm: "first_match linkRegex ?s = Some (post, ?cap)" .
  from assms(2) have "p \<noteq> []" by (auto simp: endsWithAudioExtension_iff)
  then have "or_else (?cap 2) (?cap 3) = Some p" by (simp add: or_else_def falsy_def)
  note em = emit_capture[OF this \<open>p \<noteq> []\<close>, of 0 "length ?s - length post"]
  have len: "length ?s - length post = length p + 4" by simp
  have "findAudioLinkMatches ?s =
          emit \<lparr>index = 0, groups = ?cap\<rparr> (length ?s - length post)
          @ map (shift (length ?s - length post)) (findAudioLinkMatches post)"
    by (rule scan_hit[OF fm])
  then have "findAudioLinkMatches ?s =
          [\<lparr>linkText = p, startPos = 0, endPos = length ?s - length post\<rparr>]
          @ map (shift (length ?s - length post)) (findAudioLinkMatches post)"
    by (simp only: em)
  then show ?thesis unfolding len by simp
qed

lemma endsWithAudioExtension_dot:
  assumes "e \<in> set audioExtensions" "ci_eq x e"
  shows "endsWithAudioExtension (stem @ ''.'' @ x)"
proof -
  have "stem @ ''.'' @ x = (stem @ ''.'') @ x \<and> stem @ ''.'' \<noteq> [] \<and>
        e \<in> set audioExtensions \<and> ci_eq x e"
    using assms by simp
  then show ?thesis unfolding endsWithAudioExtension_iff by blast
qed

text \<open>
  Claim C1.  A document that holds one well-formed reference, in either syntax, to a
  path that ends in a dot and a recognized extension (in any case of its letters),
  after a text without an opening bracket and before a text in which the scanner
  finds nothing: the scanner returns exactly one match, its \<open>linkText\<close> is the path
  without brackets or parentheses, its \<open>startPos\<close> is the index of the opening bracket
  and its \<open>endPos\<close> is the index after the closing bracket or parenthesis.
\<close>

theorem single_reference_yields_one_match:
  assumes "e \<in> set audioExtensions" and "ci_eq x e"
    and "CHR ''['' \<notin> set pre" and "findAudioLinkMatches post = []"
    and "CHR '']'' \<notin> set label" and "CHR '')'' \<notin> set stem" and "CHR '']'' \<notin> set stem'"
  shows "findAudioLinkMatches (pre @ ''['' @ label @ '']('' @ stem @ ''.'' @ x @ '')'' @ post) =
           [\<lparr>linkText = stem @ ''.'' @ x, startPos = length pre,
             endPos = length pre + length (''['' @ label @ '']('' @ stem @ ''.'' @ x @ '')'')\<rparr>]
         \<and> findAudioLinkMatches (pre @ ''[['' @ stem' @ ''.'' @ x @ '']]'' @ post) =
           [\<lparr>linkText = stem' @ ''.'' @ x, startPos = length pre,
             endPos = length pre + length (''[['' @ stem' @ ''.'' @ x @ '']]'')\<rparr>]"
proof
  from ci_eq_ext_chars[OF assms(1,2)] have x: "CHR '']'' \<notin> set x" "CHR '')'' \<notin> set x" by simp_all
  let ?p = "stem @ ''.'' @ x"
  from x assms(6) have "CHR '')'' \<notin> set ?p" by simp
  from scan_md_reference[OF assms(5) this endsWithAudioExtension_dot[OF assms(1,2)], of post] assms(4)
  have "findAudioLinkMatches (CHR ''['' # label @ CHR '']'' # CHR ''('' # ?p @ CHR '')'' # post) =
          [\<lparr>linkText = ?p, startPos = 0, endPos = length label + length ?p + 4\<rparr>]"
    by simp
  with scan_skip_prefix[OF assms(3),
      of "CHR ''['' # label @ CHR '']'' # CHR ''('' # ?p @ CHR '')'' # post"]
  show "findAudioLinkMatches (pre @ ''['' @ label @ '']('' @ stem @ ''.'' @ x @ '')'' @ post) =
           [\<lparr>linkText = stem @ ''.'' @ x, startPos = length pre,
             endPos = length pre + length (''['' @ label @ '']('' @ stem @ ''.'' @ x @ '')'')\<rparr>]"
    by (simp add: shift_def)
  let ?q = "stem' @ ''.'' @ x"
  from x assms(7) have "CHR '']'' \<notin> set ?q" by simp
  from scan_wiki_reference[OF this endsWithAudioExtension_dot[OF assms(1,2)], of post] assms(4)
  have "findAudioLinkMatches (CHR ''['' # CHR ''['' # ?q @ CHR '']'' # CHR '']'' # post) =
          [\<lparr>linkText = ?q, startPos = 0, endPos = length ?q + 4\<rparr>]"
    by simp
  with scan_skip_prefix[OF assms(3),
      of "CHR ''['' # CHR ''['' # ?q @ CHR '']'' # CHR '']'' # post"]
  show "findAudioLinkMatches (pre @ ''[['' @ stem' @ ''.'' @ x @ '']]'' @ post) =
           [\<lparr>linkText = stem' @ ''.'' @ x, startPos = length pre,
             endPos = length pre + length (''[['' @ stem' @ ''.'' @ x @ '']]'')\<rparr>]"
    by (simp add: shift_def)
qed

theorem single_reference_yields_one_match_witness:
  "''m4a'' \<in> set audioExtensions \<and> ci_eq ''M4A'' ''m4a'' \<and> CHR ''['' \<notin> set ''See ''
   \<and> findAudioLinkMatches '' for notes.'' = []
   \<and> CHR '']'' \<notin> set ''audio'' \<and> CHR '')'' \<notin> set ''rec/meeting'' \<and> CHR '']'' \<notin> set ''meeting''
   \<and> findAudioLinkMatches ''See [audio](rec/meeting.M4A) for notes.'' =
         [\<lparr>linkText = ''rec/meeting.M4A'', startPos = 4, endPos = 28\<rparr>]
   \<and> findAudioLinkMatches ''See [[meeting.M4A]] for notes.'' =
         [\<lparr>linkText = ''meeting.M4A'', startPos = 4, endPos = 19\<rparr>]"
proof -
  have h1: "''m4a'' \<in> set audioExtensions" by (simp add: audioExtensions_def)
  have h2: "ci_eq ''M4A'' ''m4a''" by (simp add: ci_eq_def canonicalize_def)
  have h3: "CHR ''['' \<notin> set ''See ''" by simp
  have h4: "findAudioLinkMatches '' for notes.'' = []"
    using scan_skip_prefix[of "'' for notes.''" "[]"] by (simp add: scan_Nil)
  have h5: "CHR '']'' \<notin> set ''audio''" by simp
  have h6: "CHR '')'' \<notin> set ''rec/meeting''" by simp
  have h7: "CHR '']'' \<notin> set ''meeting''" by simp
  from single_reference_yields_one_match[OF h1 h2 h3 h4 h5 h6 h7] h1 h2 h3 h4 h5 h6 h7
  show ?thesis by simp
qed

fun chain :: "nat \<Rightarrow> LinkMatch list \<Rightarrow> bool" where
  "chain lo [] = True"
| "chain lo (m # xs) = (lo \<le> startPos m \<and> startPos m < endPos m \<and> chain (endPos m) xs)"

lemma chain_mono: "lo' \<le> lo \<Longrightarrow> chain lo xs \<Longrightarrow> chain lo' xs"
  by (cases xs) auto

lemma chain_scan: "chain i (findAudioLinkMatches_loop S i [])"
proof (induction "Suc (length S) - i" arbitrary: i rule: less_induct)
  case less
  obtain r e where ex: "regExpBuiltinExec linkRegex S i = (r, e)"
    by (cases "regExpBuiltinExec linkRegex S i")
  show ?case
  proof (cases r)
    case None
    with ex show ?thesis by (simp add: loop_stop)
  next
    case (Some m)
    with ex have ex': "regExpBuiltinExec linkRegex S i = (Some m, e)" by simp
    from exec_progress[OF linkRegex_shorter ex'] regExpBuiltinExec_Some[OF ex']
    have b: "i \<le> index m" "index m < e" "i < e" "e \<le> length S" by simp_all
    then have "Suc (length S) - e < Suc (length S) - i" by simp
    from less.hyps[OF this] have IH: "chain e (findAudioLinkMatches_loop S e [])" .
    have "chain i (emit m e @ findAudioLinkMatches_loop S e [])"
    proof (cases "emit m e")
      case Nil
      from b have "i \<le> e" by simp
      from chain_mono[OF this IH] Nil show ?thesis by simp
    next
      case (Cons a as)
      then have "emit m e = [\<lparr>linkText = linkText a, startPos = index m, endPos = e\<rparr>]"
        by (auto simp: emit_def split: option.splits if_splits)
      with b IH show ?thesis by simp
    qed
    with scan_step[OF ex'] show ?thesis by simp
  qed
qed

lemma chain_spans:
  "chain lo xs \<Longrightarrow> (\<forall>m\<in>set xs. startPos m < endPos m)
     \<and> (\<forall>k. Suc k < length xs \<longrightarrow> endPos (xs ! k) \<le> startPos (xs ! Suc k))"
proof (induction xs arbitrary: lo)
  case Nil
  show ?case by simp
next
  case (Cons m xs)
  then have m: "startPos m < endPos m" and c: "chain (endPos m) xs" by simp_all
  from Cons.IH[OF c] have IH1: "\<forall>m\<in>set xs. startPos m < endPos m"
    and IH2: "\<forall>k. Suc k < length xs \<longrightarrow> endPos (xs ! k) \<le> startPos (xs ! Suc k)" by blast+
  have "endPos ((m # xs) ! k) \<le> startPos ((m # xs) ! Suc k)" if "Suc k < length (m # xs)" for k
  proof (cases k)
    case 0
    with that obtain n ns where "xs = n # ns" by (cases xs) auto
    with c 0 show ?thesis by simp
  next
    case (Suc j)
    with that IH2 show ?thesis by simp
  qed
  with m IH1 show ?case by simp
qed

text \<open>
  Claim C6.  Every match of the scanner begins before it ends, and of two matches
  that follow each other in the result the first ends at or before the start of the
  second.
\<close>

theorem matches_ordered_and_disjoint:
  "(\<forall>m\<in>set (findAudioLinkMatches text). startPos m < endPos m)
   \<and> (\<forall>k. Suc k < length (findAudioLinkMatches text) \<longrightarrow>
          endPos (findAudioLinkMatches text ! k) \<le> startPos (findAudioLinkMatches text ! Suc k))"
  unfolding findAudioLinkMatches_def by (rule chain_spans[OF chain_scan])

lemma two_refs_eval:
  "findAudioLinkMatches ''[[a.mp3]] and [b](c/d.WAV).'' =
     [\<lparr>linkText = ''a.mp3'', startPos = 0, endPos = 9\<rparr>,
      \<lparr>linkText = ''c/d.WAV'', startPos = 14, endPos = 26\<rparr>]"
  by code_simp


theorem matches_ordered_and_disjoint_witness:
  "length (findAudioLinkMatches ''[[a.mp3]] and [b](c/d.WAV).'') = 2
   \<and> startPos (findAudioLinkMatches ''[[a.mp3]] and [b](c/d.WAV).'' ! 0)
       < endPos (findAudioLinkMatches ''[[a.mp3]] and [b](c/d.WAV).'' ! 0)
   \<and> startPos (findAudioLinkMatches ''[[a.mp3]] and [b](c/d.WAV).'' ! 1)
       < endPos (findAudioLinkMatches ''[[a.mp3]] and [b](c/d.WAV).'' ! 1)
   \<and> endPos (findAudioLinkMatches ''[[a.mp3]] and [b](c/d.WAV).'' ! 0)
       \<le> startPos (findAudioLinkMatches ''[[a.mp3]] and [b](c/d.WAV).'' ! 1)"
  using matches_ordered_and_disjoint[of "''[[a.mp3]] and [b](c/d.WAV).''"]
  unfolding two_refs_eval by simp

lemma emit_ends:
  assumes "first_match linkRegex s = Some (rest, cap)"
    and "a \<in> set (emit \<lparr>index = i, groups = cap\<rparr> e)"
  shows "endsWithAudioExtension (linkText a)"
proof -
  from first_match_linkRegex_cases[OF assms(1)]
  show ?thesis
  proof
    assume "(rest, cap) \<in> set (ms mdLink (s, \<lambda>n. None))"
    then have "\<exists>l p. s = CHR ''['' # l @ CHR '']'' # CHR ''('' # p @ CHR '')'' # rest \<and>
        CHR '']'' \<notin> set l \<and> CHR '')'' \<notin> set p \<and> endsWithAudioExtension p \<and>
        cap = (\<lambda>n. None)(1 \<mapsto> l, 2 \<mapsto> p)"
      by (simp only: mem_mdLink)
    then obtain l p where p: "endsWithAudioExtension p" "cap = (\<lambda>n. None)(1 \<mapsto> l, 2 \<mapsto> p)"
      by blast
    from p(1) have "p \<noteq> []" by (auto simp: endsWithAudioExtension_iff)
    with p(2) have "or_else (cap 2) (cap 3) = Some p" by (simp add: or_else_def falsy_def)
    from emit_capture[OF this \<open>p \<noteq> []\<close>] assms(2) p(1) show ?thesis by simp
  next
    assume "(rest, cap) \<in> set (ms wikiLink (s, \<lambda>n. None))"
    then have "\<exists>p. s = CHR ''['' # CHR ''['' # p @ CHR '']'' # CHR '']'' # rest \<and>
        CHR '']'' \<notin> set p \<and> endsWithAudioExtension p \<and> cap = (\<lambda>n. None)(3 \<mapsto> p)"
      by (simp only: mem_wikiLink)
    then obtain p where p: "endsWithAudioExtension p" "cap = (\<lambda>n. None)(3 \<mapsto> p)"
      by blast
    from p(1) have "p \<noteq> []" by (auto simp: endsWithAudioExtension_iff)
    with p(2) have "or_else (cap 2) (cap 3) = Some p" by (simp add: or_else_def falsy_def)
    from emit_capture[OF this \<open>p \<noteq> []\<close>] assms(2) p(1) show ?thesis by simp
  qed
qed

lemma loop_ends:
  "a \<in> set (findAudioLinkMatches_loop S i []) \<Longrightarrow> endsWithAudioExtension (linkText a)"
proof (induction "Suc (length S) - i" arbitrary: i rule: less_induct)
  case less
  obtain r e where ex: "regExpBuiltinExec linkRegex S i = (r, e)"
    by (cases "regExpBuiltinExec linkRegex S i")
  show ?case
  proof (cases r)
    case None
    with ex less.prems show ?thesis by (simp add: loop_stop)
  next
    case (Some m)
    with ex have ex': "regExpBuiltinExec linkRegex S i = (Some m, e)" by simp
    from exec_progress[OF linkRegex_shorter ex']
    have dec: "Suc (length S) - e < Suc (length S) - i" by linarith
    from regExpBuiltinExec_Some[OF ex'] obtain rest where
      fm: "first_match linkRegex (drop (index m) S) = Some (rest, groups m)" by blast
    from less.prems scan_step[OF ex']
    have "a \<in> set (emit m e) \<or> a \<in> set (findAudioLinkMatches_loop S e [])" by simp
    then show ?thesis
    proof
      assume "a \<in> set (emit m e)"
      then have "a \<in> set (emit \<lparr>index = index m, groups = groups m\<rparr> e)"
        by (cases m) simp
      from emit_ends[OF fm this] show ?thesis .
    next
      assume "a \<in> set (findAudioLinkMatches_loop S e [])"
      from less.hyps[OF dec this] show ?thesis .
    qed
  qed
qed

text \<open>
  What the scanner does guarantee about the path of a match: it ends, up to the case
  of the letters, with the letters of a recognized extension, after at least one
  other character.  The pattern asks for no dot.
\<close>

lemma linkText_ends_with_extension_letters:
  "a \<in> set (findAudioLinkMatches text) \<Longrightarrow> endsWithAudioExtension (linkText a)"
  unfolding findAudioLinkMatches_def by (rule loop_ends)


text \<open>
  The words of the specification: the file extension of a path is the text after its
  last dot, and a path without a dot has none; it is recognized when it is one of
  the six extensions, up to the case of the letters.
\<close>

definition spec_fileExtension :: "string \<Rightarrow> string option" where
  "spec_fileExtension p =
     (if CHR ''.'' \<in> set p then Some (rev (takeWhile (\<lambda>c. c \<noteq> CHR ''.'') (rev p))) else None)"

definition spec_hasRecognizedExtension :: "string \<Rightarrow> bool" where
  "spec_hasRecognizedExtension p =
     (case spec_fileExtension p of
        None \<Rightarrow> False
      | Some x \<Rightarrow> list_ex (ci_eq x) audioExtensions)"

text \<open>
  Claim C2.  The claim is that no match is emitted for a reference whose path has no
  recognized file extension.  The scanner emits one for the path song.xmp3, whose
  extension xmp3 is not recognized: the pattern has no dot before the extension.
\<close>

theorem unrecognized_extension_is_matched:
  "\<not> spec_hasRecognizedExtension ''song.xmp3''
   \<and> findAudioLinkMatches ''[x](song.xmp3)'' =
       [\<lparr>linkText = ''song.xmp3'', startPos = 0, endPos = 14\<rparr>]"
proof
  show "\<not> spec_hasRecognizedExtension ''song.xmp3''"
    by (simp add: spec_hasRecognizedExtension_def spec_fileExtension_def audioExtensions_def
        ci_eq_def canonicalize_def)
  show "findAudioLinkMatches ''[x](song.xmp3)'' =
       [\<lparr>linkText = ''song.xmp3'', startPos = 0, endPos = 14\<rparr>]"
    by code_simp
qed

text \<open>
  Claim C10.  The claim is that the scanner of link\_finder.ts and the scanner of
  main.ts return the same matches.  They do not: the class of the wiki-style group is
  \<^verbatim>\<open>[^\]]\<close> in the first and \<^verbatim>\<open>[^\[]\<close> in the second, so the second runs over a
  closing pair of brackets.
\<close>

theorem scanners_disagree:
  "findAudioLinkMatches ''[[a.mp3]] b.mp3]]'' =
     [\<lparr>linkText = ''a.mp3'', startPos = 0, endPos = 9\<rparr>]
   \<and> findAudioLinks ''[[a.mp3]] b.mp3]]'' =
     [\<lparr>filePath = ''a.mp3]] b.mp3'', AudioLink.startPos = 0, AudioLink.endPos = 17\<rparr>]
   \<and> findAudioLinkMatches ''[[rec[1.mp3]]'' =
     [\<lparr>linkText = ''rec[1.mp3'', startPos = 0, endPos = 13\<rparr>]
   \<and> findAudioLinks ''[[rec[1.mp3]]'' = []"
  by code_simp

section \<open>The resolver\<close>

text \<open>What the resolver makes of one match: nothing, or the file with the positions.\<close>

definition resolved :: "(string \<Rightarrow> string \<Rightarrow> TFile option) \<Rightarrow> string \<Rightarrow> LinkMatch \<Rightarrow> AudioLinkFile option" where
  "resolved resolve currentPath m =
     (case resolve (linkText m) currentPath of
        None \<Rightarrow> None
      | Some f \<Rightarrow> Some \<lparr>tfile = f, AudioLinkFile.startPos = startPos m,
                         AudioLinkFile.endPos = endPos m\<rparr>)"

lemma resolveMatchesToFiles_loop_eq:
  "resolveMatchesToFiles_loop resolve xs currentPath acc =
     acc @ List.map_filter (resolved resolve currentPath) xs"
proof (induction xs arbitrary: acc)
  case Nil
  show ?case by (simp add: List.map_filter_simps)
next
  case (Cons m xs)
  show ?case
  proof (cases "resolve (linkText m) currentPath")
    case None
    with Cons.IH[of acc] show ?thesis
      by (simp add: List.map_filter_simps resolved_def)
  next
    case (Some f)
    with Cons.IH[of "acc @ [\<lparr>tfile = f, AudioLinkFile.startPos = startPos m,
                               AudioLinkFile.endPos = endPos m\<rparr>]"]
    show ?thesis by (simp add: List.map_filter_simps resolved_def)
  qed
qed

lemma map_filter_positions:
  "map (\<lambda>a. (AudioLinkFile.startPos a, AudioLinkFile.endPos a))
       (List.map_filter (resolved resolve currentPath) xs) =
   map (\<lambda>m. (startPos m, endPos m))
       (filter (\<lambda>m. resolve (linkText m) currentPath \<noteq> None) xs)"
  by (induction xs) (auto simp: List.map_filter_simps resolved_def split: option.splits)

text \<open>
  Claim C5.  The output of the resolver holds, in the order of the input, one entry
  for each match whose text resolves to a file, with that file and the positions of
  the match, and nothing for the other matches; so it is no longer than the input.
\<close>

theorem resolver_keeps_resolved_matches_in_order:
  "resolveMatchesToFiles resolve linkMatches currentPath =
     List.map_filter (resolved resolve currentPath) linkMatches
   \<and> map (\<lambda>a. (AudioLinkFile.startPos a, AudioLinkFile.endPos a))
         (resolveMatchesToFiles resolve linkMatches currentPath) =
     map (\<lambda>m. (startPos m, endPos m))
         (filter (\<lambda>m. resolve (linkText m) currentPath \<noteq> None) linkMatches)
   \<and> length (resolveMatchesToFiles resolve linkMatches currentPath) \<le> length linkMatches"
proof -
  have eq: "resolveMatchesToFiles resolve linkMatches currentPath =
              List.map_filter (resolved resolve currentPath) linkMatches"
    by (simp add: resolveMatchesToFiles_def resolveMatchesToFiles_loop_eq)
  have "length (List.map_filter (resolved resolve currentPath) linkMatches) \<le> length linkMatches"
    by (simp add: List.map_filter_def)
  with eq map_filter_positions[of resolve currentPath linkMatches] show ?thesis by simp
qed


section \<open>The path of the transcript\<close>

text \<open>
  The words of the specification: a trailing recognized audio extension, a dot and
  one of the six extensions in any case of the letters, is stripped from the name
  if the name has one.
\<close>

definition spec_stripAudioExtension :: "string \<Rightarrow> string" where
  "spec_stripAudioExtension name =
     (case List.find
             (\<lambda>e. length e < length name
                  \<and> ci_eq (drop (length name - Suc (length e)) name) (CHR ''.'' # e))
             audioExtensions of
        None \<Rightarrow> name
      | Some e \<Rightarrow> take (length name - Suc (length e)) name)"

text \<open>A text that is a dot and an extension, which is what the pattern matches.\<close>

definition dotExtension :: "string \<Rightarrow> bool" where
  "dotExtension s = (\<exists>v e. s = CHR ''.'' # v \<and> e \<in> set audioExtensions \<and> ci_eq v e)"

lemma mem_transcriptExtRegex:
  "(t, cs') \<in> set (ms transcriptExtRegex (s, cs)) \<longleftrightarrow>
     (\<exists>v e. s = CHR ''.'' # v \<and> e \<in> set audioExtensions \<and> ci_eq v e \<and> t = [] \<and>
            cs' = cs(1 \<mapsto> v))"
  (is "?L \<longleftrightarrow> ?R")
proof -
  let ?R1 = "Cat (Grp 1 extPattern) Eoi"
  have tr: "transcriptExtRegex = Cat (Lit CHR ''.'') ?R1" by (simp add: transcriptExtRegex_def)
  have grp: "(u2, c2) \<in> set (ms (Grp 1 extPattern) (u, cs)) \<longleftrightarrow>
      (\<exists>v e. u = v @ u2 \<and> e \<in> set audioExtensions \<and> ci_eq v e \<and> c2 = cs(1 \<mapsto> v))"
    (is "?A \<longleftrightarrow> ?B") for u u2 c2
  proof
    assume ?A
    then have "\<exists>c. (u2, c) \<in> set (ms extPattern (u, cs)) \<and>
                   c2 = c(1 \<mapsto> take (length u - length u2) u)"
      by (simp only: mem_Grp)
    then obtain c where 1: "(u2, c) \<in> set (ms extPattern (u, cs))"
      and 2: "c2 = c(1 \<mapsto> take (length u - length u2) u)" by blast
    from 1 have "c = cs \<and> (\<exists>v e. u = v @ u2 \<and> e \<in> set audioExtensions \<and> ci_eq v e)"
      by (simp only: mem_extPattern)
    then obtain v e where 3: "c = cs" "u = v @ u2" "e \<in> set audioExtensions" "ci_eq v e"
      by blast
    then have "take (length u - length u2) u = v" by simp
    with 2 3 have "u = v @ u2 \<and> e \<in> set audioExtensions \<and> ci_eq v e \<and> c2 = cs(1 \<mapsto> v)"
      by simp
    then show ?B by blast
  next
    assume ?B
    then obtain v e where 3: "u = v @ u2" "e \<in> set audioExtensions" "ci_eq v e" "c2 = cs(1 \<mapsto> v)"
      by blast
    then have "cs = cs \<and> (\<exists>v e. u = v @ u2 \<and> e \<in> set audioExtensions \<and> ci_eq v e)" by blast
    then have "(u2, cs) \<in> set (ms extPattern (u, cs))" by (simp only: mem_extPattern)
    moreover from 3 have "c2 = cs(1 \<mapsto> take (length u - length u2) u)" by simp
    ultimately have "\<exists>c. (u2, c) \<in> set (ms extPattern (u, cs)) \<and>
                   c2 = c(1 \<mapsto> take (length u - length u2) u)" by blast
    then show ?A by (simp only: mem_Grp)
  qed
  have r1: "(t, cs') \<in> set (ms ?R1 (u, cs)) \<longleftrightarrow>
      (\<exists>e. e \<in> set audioExtensions \<and> ci_eq u e \<and> t = [] \<and> cs' = cs(1 \<mapsto> u))"
    (is "?A \<longleftrightarrow> ?B") for u
  proof
    assume ?A
    then have "\<exists>u2 c2. (u2, c2) \<in> set (ms (Grp 1 extPattern) (u, cs)) \<and>
                       (t, cs') \<in> set (ms Eoi (u2, c2))"
      by (simp only: mem_Cat)
    then obtain u2 c2 where 1: "(u2, c2) \<in> set (ms (Grp 1 extPattern) (u, cs))"
      and 2: "(t, cs') \<in> set (ms Eoi (u2, c2))" by blast
    have 3: "u2 = [] \<and> t = [] \<and> cs' = c2"
    proof (cases u2)
      case Nil
      with 2 show ?thesis by simp
    next
      case (Cons a as)
      with 2 show ?thesis by simp
    qed
    from 1 have "\<exists>v e. u = v @ u2 \<and> e \<in> set audioExtensions \<and> ci_eq v e \<and> c2 = cs(1 \<mapsto> v)"
      by (simp only: grp)
    then obtain v e where 4: "u = v @ u2" "e \<in> set audioExtensions" "ci_eq v e" "c2 = cs(1 \<mapsto> v)"
      by blast
    from 3 4 have "e \<in> set audioExtensions \<and> ci_eq u e \<and> t = [] \<and> cs' = cs(1 \<mapsto> u)"
      by simp
    then show ?B ..
  next
    assume ?B
    then obtain e where 3: "e \<in> set audioExtensions" "ci_eq u e" "t = []" "cs' = cs(1 \<mapsto> u)"
      by blast
    then have "u = u @ [] \<and> e \<in> set audioExtensions \<and> ci_eq u e \<and> cs' = cs(1 \<mapsto> u)"
      by simp
    then have "\<exists>v e. u = v @ [] \<and> e \<in> set audioExtensions \<and> ci_eq v e \<and> cs' = cs(1 \<mapsto> v)"
      by blast
    then have "([], cs') \<in> set (ms (Grp 1 extPattern) (u, cs))" by (simp only: grp)
    moreover from 3 have "(t, cs') \<in> set (ms Eoi ([], cs'))" by simp
    ultimately have "\<exists>u2 c2. (u2, c2) \<in> set (ms (Grp 1 extPattern) (u, cs)) \<and>
                       (t, cs') \<in> set (ms Eoi (u2, c2))" by blast
    then show ?A by (simp only: mem_Cat)
  qed
  show ?thesis
  proof
    assume ?L
    then have "\<exists>x u. s = x # u \<and> x = CHR ''.'' \<and> (t, cs') \<in> set (ms ?R1 (u, cs))"
      by (simp only: tr mem_Cat_Lit canonicalize_punct)
    then obtain u where u: "s = CHR ''.'' # u" "(t, cs') \<in> set (ms ?R1 (u, cs))" by blast
    from u(2) have "\<exists>e. e \<in> set audioExtensions \<and> ci_eq u e \<and> t = [] \<and> cs' = cs(1 \<mapsto> u)"
      by (simp only: r1)
    with u(1) show ?R by blast
  next
    assume ?R
    then obtain v e where 1: "s = CHR ''.'' # v" "e \<in> set audioExtensions" "ci_eq v e" "t = []"
      "cs' = cs(1 \<mapsto> v)" by blast
    then have "\<exists>e. e \<in> set audioExtensions \<and> ci_eq v e \<and> t = [] \<and> cs' = cs(1 \<mapsto> v)"
      by blast
    then have "(t, cs') \<in> set (ms ?R1 (v, cs))" by (simp only: r1)
    with 1(1) have "\<exists>x u. s = x # u \<and> x = CHR ''.'' \<and> (t, cs') \<in> set (ms ?R1 (u, cs))"
      by blast
    then show ?L by (simp only: tr mem_Cat_Lit canonicalize_punct)
  qed
qed

lemma first_match_transcript_Some:
  assumes "first_match transcriptExtRegex s = Some (rest, cap)"
  shows "rest = [] \<and> dotExtension s"
proof -
  from first_match_Some_mem[OF assms]
  have "\<exists>v e. s = CHR ''.'' # v \<and> e \<in> set audioExtensions \<and> ci_eq v e \<and> rest = [] \<and>
            cap = (\<lambda>n. None)(1 \<mapsto> v)"
    by (simp only: mem_transcriptExtRegex)
  then show ?thesis unfolding dotExtension_def by blast
qed

lemma first_match_transcript_hit:
  assumes "dotExtension s"
  shows "first_match transcriptExtRegex s \<noteq> None"
proof -
  from assms obtain v e where "s = CHR ''.'' # v" "e \<in> set audioExtensions" "ci_eq v e"
    unfolding dotExtension_def by blast
  then have "\<exists>v e. s = CHR ''.'' # v \<and> e \<in> set audioExtensions \<and> ci_eq v e \<and> [] = [] \<and>
            (\<lambda>n. None)(1 \<mapsto> v) = (\<lambda>n. None)(1 \<mapsto> v)"
    by blast
  then obtain v' where "\<exists>e. s = CHR ''.'' # v' \<and> e \<in> set audioExtensions \<and> ci_eq v' e \<and>
            ([]::string) = [] \<and> (\<lambda>n. None)(1 \<mapsto> v') = (\<lambda>n. None)(1 \<mapsto> v')"
    by blast
  then have "\<exists>v e. s = CHR ''.'' # v \<and> e \<in> set audioExtensions \<and> ci_eq v e \<and>
            ([]::string) = [] \<and> (\<lambda>n. None)(1 \<mapsto> v') = (\<lambda>n. None)(1 \<mapsto> v)"
    by blast
  then have "([], (\<lambda>n. None)(1 \<mapsto> v')) \<in> set (ms transcriptExtRegex (s, \<lambda>n. None))"
    by (simp only: mem_transcriptExtRegex)
  then have "ms transcriptExtRegex (s, \<lambda>n. None) \<noteq> []" by auto
  then show ?thesis by (simp add: first_match_def split: list.splits)
qed


lemma ci_eq_ext_no_dot:
  assumes "e \<in> set audioExtensions" "ci_eq v e"
  shows "CHR ''.'' \<notin> set v"
proof
  assume "CHR ''.'' \<in> set v"
  then have "canonicalize CHR ''.'' \<in> set (map canonicalize v)" by simp
  with assms(2) have "canonicalize CHR ''.'' \<in> set (map canonicalize e)"
    by (simp only: ci_eq_def)
  with assms(1) show False by (auto simp: audioExtensions_def canonicalize_def)
qed

lemma dotExtension_unique:
  assumes "dotExtension (drop j1 s)" "dotExtension (drop j2 s)"
  shows "j1 = j2"
proof -
  have aux: False if "dotExtension (drop i s)" "dotExtension (drop k s)" "i < k" for i k
  proof -
    from that(1) obtain v e where v: "drop i s = CHR ''.'' # v" "e \<in> set audioExtensions" "ci_eq v e"
      unfolding dotExtension_def by blast
    from that(2) obtain v' where v': "drop k s = CHR ''.'' # v'"
      unfolding dotExtension_def by blast
    from that(3) obtain d where d: "k = i + Suc d" by (auto simp: less_iff_Suc_add)
    have "drop k s = drop (Suc d) (drop i s)" by (simp add: d add.commute)
    with v(1) have "drop k s = drop d v" by simp
    with v' have "CHR ''.'' \<in> set (drop d v)" by simp
    then have "CHR ''.'' \<in> set v" by (rule in_set_dropD)
    with ci_eq_ext_no_dot[OF v(2,3)] show False by simp
  qed
  show ?thesis
  proof (rule ccontr)
    assume "j1 \<noteq> j2"
    then consider "j1 < j2" | "j2 < j1" by linarith
    then show False
    proof cases
      case 1
      from aux[OF assms(1) assms(2) 1] show ?thesis .
    next
      case 2
      from aux[OF assms(2) assms(1) 2] show ?thesis .
    qed
  qed
qed

lemma exec_finds:
  assumes "i \<le> j" "j \<le> length S" "first_match R (drop j S) \<noteq> None"
  shows "\<exists>m e. regExpBuiltinExec R S i = (Some m, e)"
  using assms
proof (induction "j - i" arbitrary: i)
  case 0
  then have "i = j" by simp
  with 0 obtain st where "first_match R (drop i S) = Some st" by auto
  then obtain rest cap where "first_match R (drop i S) = Some (rest, cap)" by (cases st) auto
  from exec_hit[OF _ this] 0 \<open>i = j\<close> show ?case by simp
next
  case (Suc n)
  show ?case
  proof (cases "first_match R (drop i S)")
    case None
    from Suc.hyps(2) have "n = j - Suc i" "Suc i \<le> j" by simp_all
    from Suc.hyps(1)[OF this Suc.prems(2,3)] exec_miss[OF None] show ?thesis by simp
  next
    case (Some st)
    then obtain rest cap where "first_match R (drop i S) = Some (rest, cap)" by (cases st) auto
    moreover from Suc.prems have "i \<le> length S" by simp
    ultimately show ?thesis using exec_hit by blast
  qed
qed

lemma dotExtension_at:
  assumes "e \<in> set audioExtensions" "length e < length name"
    "ci_eq (drop (length name - Suc (length e)) name) (CHR ''.'' # e)"
  shows "dotExtension (drop (length name - Suc (length e)) name)"
proof -
  from assms(3) obtain x v where "drop (length name - Suc (length e)) name = x # v"
    "canonicalize x = canonicalize CHR ''.''" "ci_eq v e"
    unfolding ci_eq_Cons by blast
  then have "drop (length name - Suc (length e)) name = CHR ''.'' # v \<and> e \<in> set audioExtensions \<and>
             ci_eq v e"
    using assms(1) by (simp add: canonicalize_punct)
  then show ?thesis unfolding dotExtension_def by blast
qed

lemma dotExtension_drop:
  assumes "dotExtension (drop j name)"
  shows "\<exists>e. e \<in> set audioExtensions \<and> length e < length name \<and> j = length name - Suc (length e) \<and>
             ci_eq (drop (length name - Suc (length e)) name) (CHR ''.'' # e)"
proof -
  from assms obtain v e where v: "drop j name = CHR ''.'' # v" "e \<in> set audioExtensions" "ci_eq v e"
    unfolding dotExtension_def by blast
  from v(1) have "length (drop j name) = Suc (length v)" by simp
  with ci_eq_length[OF v(3)] have j: "length name - j = Suc (length e)" by simp
  then have "length e < length name" "j = length name - Suc (length e)" by simp_all
  moreover from v have "ci_eq (drop j name) (CHR ''.'' # e)" by (simp add: ci_eq_def)
  ultimately have "e \<in> set audioExtensions \<and> length e < length name \<and>
      j = length name - Suc (length e) \<and>
      ci_eq (drop (length name - Suc (length e)) name) (CHR ''.'' # e)"
    using v(2) by simp
  then show ?thesis ..
qed

lemma replace_strips_extension:
  "replace name transcriptExtRegex [] = spec_stripAudioExtension name"
proof -
  let ?Q = "\<lambda>e. length e < length name
                \<and> ci_eq (drop (length name - Suc (length e)) name) (CHR ''.'' # e)"
  obtain r e' where ex: "regExpBuiltinExec transcriptExtRegex name 0 = (r, e')"
    by (cases "regExpBuiltinExec transcriptExtRegex name 0")
  show ?thesis
  proof (cases r)
    case None
    have "List.find ?Q audioExtensions = None"
    proof (cases "List.find ?Q audioExtensions")
      case (Some e)
      then have "?Q e" "e \<in> set audioExtensions"
        by (auto simp: find_Some_iff)
      from dotExtension_at[OF this(2) this(1)[THEN conjunct1] this(1)[THEN conjunct2]]
      have "first_match transcriptExtRegex (drop (length name - Suc (length e)) name) \<noteq> None"
        by (rule first_match_transcript_hit)
      from exec_finds[OF _ _ this, of 0] ex None show ?thesis by simp
    qed
    with ex None show ?thesis by (simp add: replace_def spec_stripAudioExtension_def)
  next
    case (Some m)
    with ex have ex': "regExpBuiltinExec transcriptExtRegex name 0 = (Some m, e')" by simp
    from regExpBuiltinExec_Some[OF ex'] obtain rest where
      m: "index m \<le> length name"
      "first_match transcriptExtRegex (drop (index m) name) = Some (rest, groups m)"
      "e' = length name - length rest"
      by blast
    from first_match_transcript_Some[OF m(2)] have rest: "rest = []"
      and hit: "dotExtension (drop (index m) name)" by simp_all
    from rest m(3) ex' have rep: "replace name transcriptExtRegex [] = take (index m) name"
      by (simp add: replace_def)
    from dotExtension_drop[OF hit] obtain e2 where "e2 \<in> set audioExtensions" "?Q e2" by blast
    then have "List.find ?Q audioExtensions \<noteq> None" by (auto simp: find_None_iff)
    then obtain e where fe: "List.find ?Q audioExtensions = Some e" by auto
    then have "?Q e" "e \<in> set audioExtensions" by (auto simp: find_Some_iff)
    from dotExtension_at[OF this(2) this(1)[THEN conjunct1] this(1)[THEN conjunct2]]
    have "dotExtension (drop (length name - Suc (length e)) name)" .
    from dotExtension_unique[OF this hit] have "length name - Suc (length e) = index m" .
    with fe rep show ?thesis by (simp add: spec_stripAudioExtension_def)
  qed
qed

text \<open>
  Claim C4.  The path of the transcript is the output directory /tmp/, the base name
  of the audio path without a trailing recognized extension, and .txt.
\<close>

theorem transcript_path_in_tmp:
  "getTranscriptPathInTmp audioPath =
     ''/tmp/'' @ spec_stripAudioExtension (basename audioPath) @ ''.txt''"
  by (simp add: getTranscriptPathInTmp_def replace_strips_extension)

lemma transcript_path_examples:
  "getTranscriptPathInTmp ''/Users/me/vault/Audio/Meeting.M4A'' = ''/tmp/Meeting.txt''"
  "getTranscriptPathInTmp ''/vault/notes.mp3.bak'' = ''/tmp/notes.mp3.bak.txt''"
  by code_simp+

section \<open>The offset of a link and the line of the insertion\<close>

lemma split_not_Nil: "split sep s \<noteq> []"
  by (induction s) auto

lemma length_split: "length (split sep s) = Suc (length (filter (\<lambda>c. c = sep) s))"
proof (induction s)
  case Nil
  show ?case by simp
next
  case (Cons x xs)
  have "length (tl (split sep xs)) = length (split sep xs) - 1" by simp
  with Cons split_not_Nil[of sep xs] show ?case by (cases "split sep xs") auto
qed

text \<open>
  Claim C3.  The line index of an offset is the number of newline characters of the
  text before the offset, the insertion point is column 0 of the line after that
  one, and for the text of the three lines abc, def, ghi and the offset 7 the
  insertion line is 2.
\<close>

theorem insertion_line_counts_newlines:
  "lineIndex content end_pos = length (filter (\<lambda>c. c = CHR 0x0A) (take end_pos content))
   \<and> insertionPos content end_pos =
       \<lparr>line = length (filter (\<lambda>c. c = CHR 0x0A) (take end_pos content)) + 1, ch = 0\<rparr>
   \<and> line (insertionPos (''abc'' @ [CHR 0x0A] @ ''def'' @ [CHR 0x0A] @ ''ghi'') 7) = 2"
proof -
  have a: "lineIndex c e = length (filter (\<lambda>c. c = CHR 0x0A) (take e c))" for c e
    by (simp add: lineIndex_def length_split)
  have b: "insertionPos c e = \<lparr>line = lineIndex c e + 1, ch = 0\<rparr>" for c e
    by (simp add: insertionPos_def)
  have "line (insertionPos (''abc'' @ [CHR 0x0A] @ ''def'' @ [CHR 0x0A] @ ''ghi'') 7) = 2"
    unfolding b a by simp
  with a b show ?thesis by simp
qed

section \<open>The insertion\<close>

text \<open>The offset at which a line begins, as the editor computes it.\<close>

definition lineStart :: "string \<Rightarrow> nat \<Rightarrow> nat" where
  "lineStart doc k = posToOffset doc \<lparr>line = k, ch = 0\<rparr>"

lemma lineStart_unfold:
  "lineStart doc k =
     (if length (split CHR 0x0A doc) \<le> k then length doc
      else sum_list (map (\<lambda>l. length l + 1) (take k (split CHR 0x0A doc))))"
  by (simp add: lineStart_def posToOffset_def Let_def)

lemma lineStart_0: "lineStart doc 0 = 0"
  using split_not_Nil[of "CHR 0x0A" doc] by (simp add: lineStart_unfold)

lemma lineStart_Nil: "lineStart [] k = 0"
  by (simp add: lineStart_unfold)

lemma lineStart_Cons:
  "lineStart (x # xs) (Suc k) =
     Suc (if x = CHR 0x0A then lineStart xs k else lineStart xs (Suc k))"
proof (cases "x = CHR 0x0A")
  case True
  then show ?thesis by (simp add: lineStart_unfold)
next
  case False
  obtain l ls where r: "split CHR 0x0A xs = l # ls"
    using split_not_Nil[of "CHR 0x0A" xs] by (cases "split CHR 0x0A xs") auto
  with False show ?thesis by (simp add: lineStart_unfold)
qed

lemma lineStart_after:
  "lineStart doc (Suc (length (filter (\<lambda>c. c = CHR 0x0A) (take e doc)))) =
     length (take e doc) + length (takeWhile (\<lambda>c. c \<noteq> CHR 0x0A) (drop e doc))
     + (if CHR 0x0A \<in> set (drop e doc) then 1 else 0)"
proof (induction doc arbitrary: e)
  case Nil
  show ?case by (simp add: lineStart_Nil)
next
  case (Cons x xs)
  show ?case
  proof (cases e)
    case 0
    from Cons.IH[of 0] show ?thesis
      by (simp add: 0 lineStart_Cons lineStart_0)
  next
    case (Suc e')
    from Cons.IH[of e'] show ?thesis
      by (simp add: Suc lineStart_Cons)
  qed
qed

text \<open>
  The text up to the end of the line in which the offset lies, with the newline of
  that line when it has one.
\<close>

definition upToEndOfLine :: "string \<Rightarrow> nat \<Rightarrow> string" where
  "upToEndOfLine doc e =
     take e doc @ takeWhile (\<lambda>c. c \<noteq> CHR 0x0A) (drop e doc)
     @ (if CHR 0x0A \<in> set (drop e doc) then [CHR 0x0A] else [])"

lemma upToEndOfLine_prefix: "\<exists>b. doc = upToEndOfLine doc e @ b"
proof -
  let ?d = "drop e doc"
  let ?P = "\<lambda>c. c \<noteq> CHR 0x0A"
  have doc: "doc = take e doc @ takeWhile ?P ?d @ dropWhile ?P ?d" by simp
  show ?thesis
  proof (cases "CHR 0x0A \<in> set ?d")
    case True
    then have "dropWhile ?P ?d \<noteq> []" by (auto simp: dropWhile_eq_Nil_conv)
    then obtain y ys where y: "dropWhile ?P ?d = y # ys" by (cases "dropWhile ?P ?d") auto
    with hd_dropWhile[of ?P ?d] have "y = CHR 0x0A" by auto
    with y have "take e doc @ takeWhile ?P ?d @ dropWhile ?P ?d = upToEndOfLine doc e @ ys"
      using True by (simp add: upToEndOfLine_def)
    with doc have "doc = upToEndOfLine doc e @ ys" by simp
    then show ?thesis ..
  next
    case False
    then have tw: "takeWhile ?P ?d = ?d" by (auto simp: takeWhile_eq_all_conv)
    from False have "upToEndOfLine doc e = take e doc @ takeWhile ?P ?d @ []"
      by (simp add: upToEndOfLine_def)
    also have "\<dots> = take e doc @ ?d" by (simp only: tw append_Nil2)
    also have "\<dots> = doc" by simp
    finally have "doc = upToEndOfLine doc e @ []" by simp
    then show ?thesis ..
  qed
qed

lemma split_at_prefix:
  assumes "doc = a @ b"
  shows "take (length a) doc = a" "drop (length a) doc = b"
  using assms by simp_all

lemma insertion_offset:
  "posToOffset content (insertionPos content e) = length (upToEndOfLine content e)"
proof -
  have "posToOffset content (insertionPos content e) =
          lineStart content (Suc (length (filter (\<lambda>c. c = CHR 0x0A) (take e content))))"
    by (simp add: insertionPos_def lineIndex_def length_split lineStart_def)
  also have "\<dots> = length (upToEndOfLine content e)"
    unfolding lineStart_after by (simp add: upToEndOfLine_def)
  finally show ?thesis .
qed

text \<open>
  Claim C9.  The inserter leaves every character of the document in place: the new
  text is the old text with the block put between two of its parts.  The first part
  is the document up to the end of the line in which the end offset lies (so it
  holds the reference and its line), the block is a newline, the callout header, a
  newline, the transcript and a newline, and it begins where the next line began.
\<close>

theorem insertion_is_pure_and_below_the_line:
  "\<exists>after.
     content = upToEndOfLine content end_pos @ after
     \<and> insertTranscriptBelowRange content start_pos end_pos transcript =
         upToEndOfLine content end_pos
         @ ([CHR 0x0A] @ ''>[!note] Transcription'' @ [CHR 0x0A] @ transcript @ [CHR 0x0A])
         @ after"
proof -
  from upToEndOfLine_prefix[of content end_pos] obtain b where
    b: "content = upToEndOfLine content end_pos @ b" ..
  let ?a = "upToEndOfLine content end_pos"
  note tk = split_at_prefix(1)[OF b] and dr = split_at_prefix(2)[OF b]
  have ins: "insertTranscriptBelowRange content start_pos end_pos transcript =
          ?a @ ([CHR 0x0A] @ ''>[!note] Transcription'' @ [CHR 0x0A] @ transcript @ [CHR 0x0A]) @ b"
    by (simp add: insertTranscriptBelowRange_def replaceRange_def insertion_offset tk dr
        insertionText_def)
  with b show ?thesis by blast
qed

lemma insertion_example:
  "insertTranscriptBelowRange ''See [[meeting.m4a]] for notes.'' 4 19 ''Hello world'' =
     ''See [[meeting.m4a]] for notes.'' @ [CHR 0x0A] @ ''>[!note] Transcription'' @ [CHR 0x0A]
     @ ''Hello world'' @ [CHR 0x0A]"
  "insertTranscriptBelowRange (''a [[b.mp3]]'' @ [CHR 0x0A] @ ''next'') 2 11 ''T'' =
     ''a [[b.mp3]]'' @ [CHR 0x0A] @ [CHR 0x0A] @ ''>[!note] Transcription'' @ [CHR 0x0A]
     @ ''T'' @ [CHR 0x0A] @ ''next''"
  by (simp_all add: insertTranscriptBelowRange_def replaceRange_def insertion_offset
      upToEndOfLine_def insertionText_def)

section \<open>The transcript reader\<close>

lemma trim_decomposition:
  "\<exists>l r. s = l @ trim s @ r \<and> list_all isWhiteSpace l \<and> list_all isWhiteSpace r"
proof -
  let ?s1 = "dropWhile isWhiteSpace s"
  let ?l = "takeWhile isWhiteSpace s"
  let ?r = "rev (takeWhile isWhiteSpace (rev ?s1))"
  have "rev (takeWhile isWhiteSpace (rev ?s1) @ dropWhile isWhiteSpace (rev ?s1)) = rev (rev ?s1)"
    by (simp only: takeWhile_dropWhile_id)
  then have "?s1 = trim s @ ?r" by (simp only: rev_append rev_rev_ident trim_def)
  moreover have "s = ?l @ ?s1" by simp
  ultimately have "s = ?l @ trim s @ ?r" by simp
  moreover have "list_all isWhiteSpace ?l" by (auto simp: list_all_iff dest: set_takeWhileD)
  moreover have "list_all isWhiteSpace ?r" by (auto simp: list_all_iff dest: set_takeWhileD)
  ultimately show ?thesis by blast
qed

lemma trim_ends:
  assumes "trim s \<noteq> []"
  shows "\<not> isWhiteSpace (hd (trim s)) \<and> \<not> isWhiteSpace (last (trim s))"
proof -
  let ?s1 = "dropWhile isWhiteSpace s"
  let ?xs = "dropWhile isWhiteSpace (rev ?s1)"
  from assms have xs: "?xs \<noteq> []" by (simp add: trim_def)
  have s1: "?s1 \<noteq> []"
  proof
    assume "?s1 = []"
    then have "?xs = dropWhile isWhiteSpace (rev [])" by (rule arg_cong)
    with xs show False by (simp only: rev.simps dropWhile.simps) simp
  qed
  have "last (trim s) = hd ?xs" unfolding trim_def by (rule last_rev)
  moreover from xs have "\<not> isWhiteSpace (hd ?xs)" by (rule hd_dropWhile)
  moreover have "hd (trim s) = last ?xs" unfolding trim_def by (rule hd_rev)
  moreover have "last ?xs = last (rev ?s1)"
  proof -
    have "last (takeWhile isWhiteSpace (rev ?s1) @ ?xs) = last ?xs"
      using xs by (rule last_appendR)
    then show ?thesis by (simp only: takeWhile_dropWhile_id)
  qed
  moreover have "last (rev ?s1) = hd ?s1" by (rule last_rev)
  moreover from s1 have "\<not> isWhiteSpace (hd ?s1)" by (rule hd_dropWhile)
  ultimately show ?thesis by simp
qed

lemma runWhisperCLI_frame:
  assumes "runWhisperCLI h bin audio model w = (r, w')"
  shows "editorText w' = editorText w \<and> notices w' = notices w \<and> modals w' = modals w"
  using assms
  by (auto simp: runWhisperCLI_def console_log_def Let_def split: sum.splits prod.splits if_splits)

lemma runWhisperCLI_ok:
  assumes "execFile h (if bin = [] then ''whisper'' else bin)
             [audio, ''--model'', model, ''--output_format'', ''txt'', ''--output_dir'', ''/tmp'']
             (files w) = Inr (out, errout, fs)"
  shows "\<exists>w'. runWhisperCLI h bin audio model w = (Inr (), w') \<and> files w' = fs"
  using assms by (simp add: runWhisperCLI_def console_log_def Let_def)


lemma transcribeSelected_unreadable:
  assumes fsa: "vaultAdapter h = FileSystemAdapter root"
    and ex: "execFile h ''/opt/homebrew/bin/whisper''
               [pathJoin h root (path (tfile sel)), ''--model'', ''medium'',
                ''--output_format'', ''txt'', ''--output_dir'', ''/tmp'']
               (files w) = Inr (out, errout, fs)"
    and missing: "fs (getTranscriptPathInTmp (pathJoin h root (path (tfile sel)))) = Inl err"
  shows "editorText (transcribeSelected h sel w) = editorText w"
    and "notices (transcribeSelected h sel w) =
           notices w @ [''Transcribing: '' @ path (tfile sel) @ '' ...'',
                        ''Could not read the transcript file.'']"
proof -
  let ?abs = "pathJoin h root (path (tfile sel))"
  let ?w1 = "Notice (''Transcribing: '' @ path (tfile sel) @ '' ...'') w"
  have "files ?w1 = files w" by (simp add: Notice_def)
  with ex have "execFile h (if ''/opt/homebrew/bin/whisper'' = [] then ''whisper''
                            else ''/opt/homebrew/bin/whisper'')
               [?abs, ''--model'', ''medium'', ''--output_format'', ''txt'', ''--output_dir'', ''/tmp'']
               (files ?w1) = Inr (out, errout, fs)" by simp
  from runWhisperCLI_ok[OF this] obtain w2 where
    run: "runWhisperCLI h ''/opt/homebrew/bin/whisper'' ?abs ''medium'' ?w1 = (Inr (), w2)"
    and f2: "files w2 = fs" by blast
  from runWhisperCLI_frame[OF run]
  have fr: "editorText w2 = editorText w" "notices w2 = notices ?w1"
    by (simp_all add: Notice_def)
  from missing f2 have rd: "readTranscriptFile (files w2) (getTranscriptPathInTmp ?abs) = Inl err"
    by (simp add: readTranscriptFile_def)
  have res: "transcribeSelected h sel w =
          Notice ''Could not read the transcript file.''
            (console_log ''Could not read transcript:'' w2)"
    unfolding transcribeSelected_def Let_def fsa adapter.case run prod.case sum.case rd ..
  show "editorText (transcribeSelected h sel w) = editorText w"
    unfolding res using fr by (simp add: Notice_def console_log_def)
  show "notices (transcribeSelected h sel w) =
           notices w @ [''Transcribing: '' @ path (tfile sel) @ '' ...'',
                        ''Could not read the transcript file.'']"
    unfolding res using fr by (simp add: Notice_def console_log_def)
qed

text \<open>
  Claim C8.  The reader returns the text of the file without the white space at its
  two ends, and the error of the file system when the file cannot be read.  In the
  command, when the transcription ran and its transcript cannot be read, the text in
  the editor stays as it was and the only notice after the one that announces the
  transcription is the one that says that the transcript could not be read.
\<close>

theorem reader_trims_and_unreadable_transcript_is_terminal:
  "(case fs p of
      Inr data \<Rightarrow>
        readTranscriptFile fs p = Inr (trim data)
        \<and> (\<exists>l r. data = l @ trim data @ r \<and> list_all isWhiteSpace l \<and> list_all isWhiteSpace r)
        \<and> (trim data = [] \<or>
             (\<not> isWhiteSpace (hd (trim data)) \<and> \<not> isWhiteSpace (last (trim data))))
    | Inl err \<Rightarrow> readTranscriptFile fs p = Inl err)
   \<and> (vaultAdapter h = FileSystemAdapter root
        \<and> execFile h ''/opt/homebrew/bin/whisper''
              [pathJoin h root (path (tfile sel)), ''--model'', ''medium'',
               ''--output_format'', ''txt'', ''--output_dir'', ''/tmp'']
              (files w) = Inr (out, errout, fs')
        \<and> fs' (getTranscriptPathInTmp (pathJoin h root (path (tfile sel)))) = Inl e
      \<longrightarrow> editorText (transcribeSelected h sel w) = editorText w
          \<and> notices (transcribeSelected h sel w) =
              notices w @ [''Transcribing: '' @ path (tfile sel) @ '' ...'',
                           ''Could not read the transcript file.''])"
proof
  show "case fs p of
      Inr data \<Rightarrow>
        readTranscriptFile fs p = Inr (trim data)
        \<and> (\<exists>l r. data = l @ trim data @ r \<and> list_all isWhiteSpace l \<and> list_all isWhiteSpace r)
        \<and> (trim data = [] \<or>
             (\<not> isWhiteSpace (hd (trim data)) \<and> \<not> isWhiteSpace (last (trim data))))
    | Inl err \<Rightarrow> readTranscriptFile fs p = Inl err"
  proof (cases "fs p")
    case (Inl err)
    then show ?thesis by (simp add: readTranscriptFile_def)
  next
    case (Inr data)
    have "trim data = [] \<or>
             (\<not> isWhiteSpace (hd (trim data)) \<and> \<not> isWhiteSpace (last (trim data)))"
      using trim_ends[of data] by blast
    with Inr trim_decomposition[of data] show ?thesis by (simp add: readTranscriptFile_def)
  qed
  show "vaultAdapter h = FileSystemAdapter root
        \<and> execFile h ''/opt/homebrew/bin/whisper''
              [pathJoin h root (path (tfile sel)), ''--model'', ''medium'',
               ''--output_format'', ''txt'', ''--output_dir'', ''/tmp'']
              (files w) = Inr (out, errout, fs')
        \<and> fs' (getTranscriptPathInTmp (pathJoin h root (path (tfile sel)))) = Inl e
      \<longrightarrow> editorText (transcribeSelected h sel w) = editorText w
          \<and> notices (transcribeSelected h sel w) =
              notices w @ [''Transcribing: '' @ path (tfile sel) @ '' ...'',
                           ''Could not read the transcript file.'']"
    using transcribeSelected_unreadable[of h root sel w out errout fs' e] by blast
qed

text \<open>A host and a world on which the command can be run.\<close>

definition demoHost :: host where
  "demoHost =
     \<lparr>currentFilePath = ''note.md'',
      getFirstLinkpathDest = (\<lambda>t p. if t = ''missing.mp3'' then None else Some \<lparr>path = t\<rparr>),
      userAnswer = (\<lambda>els. Click (length (buttons els) - 1)),
      vaultAdapter = FileSystemAdapter ''/vault'',
      pathJoin = (\<lambda>a b. a @ ''/'' @ b),
      execFile = (\<lambda>bin args fs. Inr ([], [], fs))\<rparr>"

definition demoWorld :: "string \<Rightarrow> world" where
  "demoWorld text =
     \<lparr>editorText = text, notices = [], console = [], modals = [], files = (\<lambda>p. Inl ENOENT)\<rparr>"

definition demoFiles :: filesystem where
  "demoFiles p = (if p = ''/tmp/a.txt'' then Inr '' Hello world\<newline>'' else Inl ENOENT)"

theorem reader_trims_and_unreadable_transcript_is_terminal_witness:
  "readTranscriptFile demoFiles ''/tmp/a.txt'' = Inr ''Hello world''
   \<and> readTranscriptFile demoFiles ''/tmp/b.txt'' = Inl ENOENT
   \<and> vaultAdapter demoHost = FileSystemAdapter ''/vault''
   \<and> editorText (transcribeSelected demoHost
         \<lparr>tfile = \<lparr>path = ''a.mp3''\<rparr>, AudioLinkFile.startPos = 0, AudioLinkFile.endPos = 9\<rparr>
         (demoWorld ''[[a.mp3]]'')) = ''[[a.mp3]]''
   \<and> notices (transcribeSelected demoHost
         \<lparr>tfile = \<lparr>path = ''a.mp3''\<rparr>, AudioLinkFile.startPos = 0, AudioLinkFile.endPos = 9\<rparr>
         (demoWorld ''[[a.mp3]]'')) =
       [''Transcribing: a.mp3 ...'', ''Could not read the transcript file.'']"
proof -
  have t: "trim '' Hello world\<newline>'' = ''Hello world''"
    by (simp add: trim_def isWhiteSpace_def)
  from reader_trims_and_unreadable_transcript_is_terminal[of demoFiles "''/tmp/a.txt''" demoHost
      "''/vault''" "\<lparr>tfile = \<lparr>path = ''a.mp3''\<rparr>, AudioLinkFile.startPos = 0, AudioLinkFile.endPos = 9\<rparr>"
      "demoWorld ''[[a.mp3]]''" "[]" "[]" "\<lambda>p. Inl ENOENT" ENOENT]
  have 1: "readTranscriptFile demoFiles ''/tmp/a.txt'' = Inr ''Hello world''"
    and 2: "editorText (transcribeSelected demoHost
         \<lparr>tfile = \<lparr>path = ''a.mp3''\<rparr>, AudioLinkFile.startPos = 0, AudioLinkFile.endPos = 9\<rparr>
         (demoWorld ''[[a.mp3]]'')) = ''[[a.mp3]]''"
    and 3: "notices (transcribeSelected demoHost
         \<lparr>tfile = \<lparr>path = ''a.mp3''\<rparr>, AudioLinkFile.startPos = 0, AudioLinkFile.endPos = 9\<rparr>
         (demoWorld ''[[a.mp3]]'')) =
       [''Transcribing: a.mp3 ...'', ''Could not read the transcript file.'']"
    by (simp_all add: demoFiles_def demoHost_def demoWorld_def t)
  from reader_trims_and_unreadable_transcript_is_terminal[of demoFiles "''/tmp/b.txt''"]
  have 4: "readTranscriptFile demoFiles ''/tmp/b.txt'' = Inl ENOENT"
    by (simp add: demoFiles_def)
  from 1 2 3 4 show ?thesis by (simp add: demoHost_def)
qed


section \<open>The selection step\<close>

text \<open>The resolved references of the note: the steps 1 and 2 of the command.\<close>

definition resolvedLinks :: "host \<Rightarrow> world \<Rightarrow> AudioLinkFile list" where
  "resolvedLinks h w =
     resolveMatchesToFiles (getFirstLinkpathDest h) (findAudioLinkMatches (editorText w))
       (currentFilePath h)"

lemma buttons_items:
  "buttons (concat (map (\<lambda>item. [Button (path (tfile item)) (Some item), Br]) items) @ els) =
     map (\<lambda>i. (path (tfile i), Some i)) items @ buttons els"
  by (induction items) simp_all

lemma buttons_onOpen:
  "buttons (onOpen items) = map (\<lambda>i. (path (tfile i), Some i)) items @ [(''Cancel'', None)]"
  by (simp add: onOpen_def buttons_items)

lemma transcribeSelected_modals: "modals (transcribeSelected h a w) = modals w"
proof (cases "vaultAdapter h")
  case OtherAdapter
  then show ?thesis by (simp add: transcribeSelected_def Notice_def)
next
  case (FileSystemAdapter root)
  let ?w1 = "Notice (''Transcribing: '' @ path (tfile a) @ '' ...'') w"
  obtain r w2 where run: "runWhisperCLI h ''/opt/homebrew/bin/whisper''
      (pathJoin h root (path (tfile a))) ''medium'' ?w1 = (r, w2)"
    by (cases "runWhisperCLI h ''/opt/homebrew/bin/whisper''
      (pathJoin h root (path (tfile a))) ''medium'' ?w1")
  from runWhisperCLI_frame[OF run] have "modals w2 = modals w" by (simp add: Notice_def)
  with FileSystemAdapter run show ?thesis
    by (simp add: transcribeSelected_def Notice_def console_log_def split: sum.splits)
qed

text \<open>
  Claim C7.  With no resolved reference the command shows the notice that no audio
  link was found and does nothing else.  With exactly one it goes on with that one
  and opens no modal.  With two or more it opens the modal, whose buttons are one per
  reference, labelled with the path of the file, and a Cancel button; a click on
  Cancel ends the command with no notice and no change but the modal, and a click on
  the button of a reference goes on with that reference.
\<close>

theorem selection_step:
  "(resolvedLinks h w = [] \<longrightarrow>
      transcribeAudioInCurrentNote h w =
        w\<lparr>notices := notices w @ [''No valid audio links found in this note.'']\<rparr>)
   \<and> (\<forall>a. resolvedLinks h w = [a] \<longrightarrow>
          transcribeAudioInCurrentNote h w = transcribeSelected h a w
          \<and> modals (transcribeAudioInCurrentNote h w) = modals w)
   \<and> (2 \<le> length (resolvedLinks h w) \<longrightarrow>
        buttons (onOpen (resolvedLinks h w)) =
          map (\<lambda>i. (path (tfile i), Some i)) (resolvedLinks h w) @ [(''Cancel'', None)]
        \<and> (userAnswer h (onOpen (resolvedLinks h w)) = Click (length (resolvedLinks h w)) \<longrightarrow>
             transcribeAudioInCurrentNote h w =
               w\<lparr>modals := modals w @ [onOpen (resolvedLinks h w)]\<rparr>)
        \<and> (\<forall>k. k < length (resolvedLinks h w)
                 \<and> userAnswer h (onOpen (resolvedLinks h w)) = Click k \<longrightarrow>
               transcribeAudioInCurrentNote h w =
                 transcribeSelected h (resolvedLinks h w ! k)
                   (w\<lparr>modals := modals w @ [onOpen (resolvedLinks h w)]\<rparr>)))"
proof -
  let ?items = "resolvedLinks h w"
  have unfold: "transcribeAudioInCurrentNote h w =
     (if length ?items = 0 then Notice ''No valid audio links found in this note.'' w
      else if length ?items = 1 then transcribeSelected h (?items ! 0) w
      else case chooseAudioLinkModal (userAnswer h) ?items of
             Pending \<Rightarrow> w\<lparr>modals := modals w @ [onOpen ?items]\<rparr>
           | Resolved None \<Rightarrow> w\<lparr>modals := modals w @ [onOpen ?items]\<rparr>
           | Resolved (Some chosen) \<Rightarrow>
               transcribeSelected h chosen (w\<lparr>modals := modals w @ [onOpen ?items]\<rparr>))"
    unfolding transcribeAudioInCurrentNote_def resolvedLinks_def Let_def ..
  have zero: "transcribeAudioInCurrentNote h w =
        w\<lparr>notices := notices w @ [''No valid audio links found in this note.'']\<rparr>"
    if "?items = []"
    unfolding unfold using that by (simp add: Notice_def)
  have one: "transcribeAudioInCurrentNote h w = transcribeSelected h a w
          \<and> modals (transcribeAudioInCurrentNote h w) = modals w"
    if "?items = [a]" for a
    unfolding unfold using that by (simp add: transcribeSelected_modals)
  have cancel: "transcribeAudioInCurrentNote h w = w\<lparr>modals := modals w @ [onOpen ?items]\<rparr>"
    if "2 \<le> length ?items" "userAnswer h (onOpen ?items) = Click (length ?items)"
  proof -
    from that(2) have "chooseAudioLinkModal (userAnswer h) ?items = Resolved None"
      by (simp add: chooseAudioLinkModal_def buttons_onOpen nth_append)
    moreover from that(1) have "length ?items \<noteq> 0" "length ?items \<noteq> 1" by linarith+
    ultimately show ?thesis unfolding unfold by simp
  qed
  have pick: "transcribeAudioInCurrentNote h w =
                 transcribeSelected h (?items ! k) (w\<lparr>modals := modals w @ [onOpen ?items]\<rparr>)"
    if "2 \<le> length ?items" "k < length ?items" "userAnswer h (onOpen ?items) = Click k" for k
  proof -
    from that(2,3) have "chooseAudioLinkModal (userAnswer h) ?items = Resolved (Some (?items ! k))"
      by (simp add: chooseAudioLinkModal_def buttons_onOpen nth_append)
    moreover from that(1) have "length ?items \<noteq> 0" "length ?items \<noteq> 1" by linarith+
    ultimately show ?thesis unfolding unfold by simp
  qed
  from zero one cancel pick buttons_onOpen[of ?items] show ?thesis by blast
qed


lemma demo_scans:
  "findAudioLinkMatches ''no links here'' = []"
  "findAudioLinkMatches ''[[a.mp3]]'' = [\<lparr>linkText = ''a.mp3'', startPos = 0, endPos = 9\<rparr>]"
  by code_simp+

lemma demo_resolved:
  "resolvedLinks demoHost (demoWorld ''no links here'') = []"
  "resolvedLinks demoHost (demoWorld ''[[a.mp3]]'') =
     [\<lparr>tfile = \<lparr>path = ''a.mp3''\<rparr>, AudioLinkFile.startPos = 0, AudioLinkFile.endPos = 9\<rparr>]"
  "resolvedLinks demoHost (demoWorld ''[[a.mp3]] and [b](c/d.WAV).'') =
     [\<lparr>tfile = \<lparr>path = ''a.mp3''\<rparr>, AudioLinkFile.startPos = 0, AudioLinkFile.endPos = 9\<rparr>,
      \<lparr>tfile = \<lparr>path = ''c/d.WAV''\<rparr>, AudioLinkFile.startPos = 14, AudioLinkFile.endPos = 26\<rparr>]"
  by (simp_all add: resolvedLinks_def demoHost_def demoWorld_def demo_scans two_refs_eval
      resolveMatchesToFiles_def)

theorem selection_step_witness:
  "resolvedLinks demoHost (demoWorld ''no links here'') = []
   \<and> transcribeAudioInCurrentNote demoHost (demoWorld ''no links here'') =
       (demoWorld ''no links here'')\<lparr>notices := [''No valid audio links found in this note.'']\<rparr>
   \<and> length (resolvedLinks demoHost (demoWorld ''[[a.mp3]]'')) = 1
   \<and> modals (transcribeAudioInCurrentNote demoHost (demoWorld ''[[a.mp3]]'')) = []
   \<and> length (resolvedLinks demoHost (demoWorld ''[[a.mp3]] and [b](c/d.WAV).'')) = 2
   \<and> map fst (buttons (onOpen (resolvedLinks demoHost (demoWorld ''[[a.mp3]] and [b](c/d.WAV).'')))) =
       [''a.mp3'', ''c/d.WAV'', ''Cancel'']
   \<and> userAnswer demoHost (onOpen (resolvedLinks demoHost (demoWorld ''[[a.mp3]] and [b](c/d.WAV).''))) =
       Click 2
   \<and> transcribeAudioInCurrentNote demoHost (demoWorld ''[[a.mp3]] and [b](c/d.WAV).'') =
       (demoWorld ''[[a.mp3]] and [b](c/d.WAV).'')
         \<lparr>modals := [onOpen (resolvedLinks demoHost (demoWorld ''[[a.mp3]] and [b](c/d.WAV).''))]\<rparr>"
proof -
  let ?two = "''[[a.mp3]] and [b](c/d.WAV).''"
  have w0: "modals (demoWorld t) = []" "notices (demoWorld t) = []" for t
    by (simp_all add: demoWorld_def)
  have ans: "userAnswer demoHost els = Click (length (buttons els) - 1)" for els
    by (simp add: demoHost_def)
  have click: "userAnswer demoHost (onOpen (resolvedLinks demoHost (demoWorld ?two))) = Click 2"
    unfolding ans by (simp add: buttons_onOpen demo_resolved)
  have len2: "length (resolvedLinks demoHost (demoWorld ?two)) = 2"
    by (simp add: demo_resolved)
  then have two: "2 \<le> length (resolvedLinks demoHost (demoWorld ?two))" by simp
  from click len2 have click':
    "userAnswer demoHost (onOpen (resolvedLinks demoHost (demoWorld ?two))) =
       Click (length (resolvedLinks demoHost (demoWorld ?two)))" by simp
  note s0 = selection_step[of demoHost "demoWorld ''no links here''", THEN conjunct1, THEN mp,
      OF demo_resolved(1)]
  note s1 = selection_step[of demoHost "demoWorld ''[[a.mp3]]''", THEN conjunct2, THEN conjunct1,
      THEN spec, THEN mp, OF demo_resolved(2), THEN conjunct2]
  note s2 = selection_step[of demoHost "demoWorld ?two", THEN conjunct2, THEN conjunct2, THEN mp,
      OF two]
  note s2a = s2[THEN conjunct1]
  note s2b = s2[THEN conjunct2, THEN conjunct1, THEN mp, OF click']
  have 0: "transcribeAudioInCurrentNote demoHost (demoWorld ''no links here'') =
       (demoWorld ''no links here'')\<lparr>notices := [''No valid audio links found in this note.'']\<rparr>"
    using s0 by (simp add: w0)
  have 1: "modals (transcribeAudioInCurrentNote demoHost (demoWorld ''[[a.mp3]]'')) = []"
    using s1 by (simp add: w0)
  have 2: "transcribeAudioInCurrentNote demoHost (demoWorld ?two) =
       (demoWorld ?two)\<lparr>modals := [onOpen (resolvedLinks demoHost (demoWorld ?two))]\<rparr>"
    using s2b by (simp add: w0)
  have 3: "map fst (buttons (onOpen (resolvedLinks demoHost (demoWorld ?two)))) =
       [''a.mp3'', ''c/d.WAV'', ''Cancel'']"
    unfolding s2a by (simp add: demo_resolved)
  have 4: "length (resolvedLinks demoHost (demoWorld ''[[a.mp3]]'')) = 1"
    by (simp add: demo_resolved)
  from 0 1 2 3 4 click len2 demo_resolved(1) show ?thesis by blast
qed

section \<open>The scenario of the specification\<close>

text \<open>
  The scenario of the specification: the note holds one wiki-style reference to
  meeting.m4a, the file resolves, the transcription succeeds and leaves a transcript
  that reads Hello world.
\<close>

definition scenarioHost :: host where
  "scenarioHost =
     \<lparr>currentFilePath = ''note.md'',
      getFirstLinkpathDest = (\<lambda>t p. if t = ''meeting.m4a'' then Some \<lparr>path = t\<rparr> else None),
      userAnswer = (\<lambda>els. Close),
      vaultAdapter = FileSystemAdapter ''/vault'',
      pathJoin = (\<lambda>a b. a @ ''/'' @ b),
      execFile = (\<lambda>bin args fs. Inr ([], [], fs(''/tmp/meeting.txt'' := Inr ''Hello world\<newline>'')))\<rparr>"

lemma scenario_scan:
  "findAudioLinkMatches ''See [[meeting.m4a]] for notes.'' =
     [\<lparr>linkText = ''meeting.m4a'', startPos = 4, endPos = 19\<rparr>]"
  by code_simp

lemma scenario_path: "getTranscriptPathInTmp ''/vault/meeting.m4a'' = ''/tmp/meeting.txt''"
  by code_simp

lemma scenario_trim: "trim ''Hello world\<newline>'' = ''Hello world''"
  by (simp add: trim_def isWhiteSpace_def)

lemma end_to_end_scenario:
  "editorText (transcribeAudioInCurrentNote scenarioHost
       (demoWorld ''See [[meeting.m4a]] for notes.'')) =
     ''See [[meeting.m4a]] for notes.\<newline>>[!note] Transcription\<newline>Hello world\<newline>''
   \<and> notices (transcribeAudioInCurrentNote scenarioHost
       (demoWorld ''See [[meeting.m4a]] for notes.'')) =
     [''Transcribing: meeting.m4a ...'', ''Transcription inserted!'']"
proof -
  have r: "resolvedLinks scenarioHost (demoWorld ''See [[meeting.m4a]] for notes.'') =
       [\<lparr>tfile = \<lparr>path = ''meeting.m4a''\<rparr>, AudioLinkFile.startPos = 4, AudioLinkFile.endPos = 19\<rparr>]"
    by (simp add: resolvedLinks_def scenarioHost_def demoWorld_def scenario_scan
        resolveMatchesToFiles_def)
  have t: "transcribeAudioInCurrentNote scenarioHost (demoWorld ''See [[meeting.m4a]] for notes.'') =
      transcribeSelected scenarioHost
        \<lparr>tfile = \<lparr>path = ''meeting.m4a''\<rparr>, AudioLinkFile.startPos = 4, AudioLinkFile.endPos = 19\<rparr>
        (demoWorld ''See [[meeting.m4a]] for notes.'')"
    unfolding transcribeAudioInCurrentNote_def Let_def resolvedLinks_def[symmetric] r by simp
  show ?thesis
    unfolding t
    by (simp add: transcribeSelected_def runWhisperCLI_def scenarioHost_def demoWorld_def
        Notice_def console_log_def scenario_path readTranscriptFile_def scenario_trim
        insertion_example[simplified])
qed

end
